theory Spec2Isabelle
  imports Complex_Main
begin

section \<open>Data model\<close>

text \<open>
  The simulation works on Python floats. They are modelled as real numbers: rounding,
  overflow and NaN are outside the model, and every statement below about a probability or
  an expected-runs value is a statement about the exact arithmetic of the formulas.
\<close>

text \<open>The nine event categories, the keys of \<open>LINEAR_WEIGHTS\<close> and of \<open>probabilities\<close>
  (\<open>'k'\<close>, \<open>'bb'\<close>, \<open>'1b'\<close>, \<open>'2b'\<close>, \<open>'3b'\<close>, \<open>'hr'\<close>, \<open>'hbp'\<close>, \<open>'e'\<close>, \<open>'oip'\<close>).\<close>

datatype outcome = K | BB | B1 | B2 | B3 | HR | HBP | E | OIP

text \<open>The exceptions the modelled code can raise.\<close>

datatype error = ValueError | IndexError | KeyError

text \<open>A row of \<open>hitter_pcts.csv\<close> or \<open>pitcher_pcts.csv\<close>, as the dictionary that
  \<open>to_dict()\<close> hands to \<open>sim_plate_app\<close>.\<close>

record profile =
  order :: int
  k_pct :: real
  bb_pct :: real
  single_pct :: real
  double_pct :: real
  triple_pct :: real
  hr_pct :: real
  hbp_pct :: real

fun LINEAR_WEIGHTS :: "outcome \<Rightarrow> real" where
  "LINEAR_WEIGHTS K = -0.26"
| "LINEAR_WEIGHTS BB = 0.29"
| "LINEAR_WEIGHTS B1 = 0.44"
| "LINEAR_WEIGHTS B2 = 0.74"
| "LINEAR_WEIGHTS B3 = 1.01"
| "LINEAR_WEIGHTS HR = 1.39"
| "LINEAR_WEIGHTS HBP = 0.31"
| "LINEAR_WEIGHTS E = -0.26"
| "LINEAR_WEIGHTS OIP = -0.26"

section \<open>The plate appearance: \<open>sim_plate_app\<close>\<close>

text \<open>\<open>math.log\<close> raises \<open>ValueError\<close> on an argument that is not strictly positive;
  \<open>sim_plate_app\<close> takes the logarithm of the first, second, third, fifth, sixth and seventh
  rate of both dictionaries (not of \<open>double_pct\<close>).\<close>

definition log_args_positive :: "profile \<Rightarrow> bool" where
  "log_args_positive p \<longleftrightarrow>
     0 < k_pct p \<and> 0 < bb_pct p \<and> 0 < single_pct p \<and> 0 < triple_pct p \<and>
     0 < hr_pct p \<and> 0 < hbp_pct p"

text \<open>The local variables of \<open>sim_plate_app\<close> (lines 21 to 29), primed to tell them from the
  dictionary keys of the same name. The base of the power is the literal \<open>2.71828\<close>.\<close>

definition k_pct' :: "profile \<Rightarrow> profile \<Rightarrow> real" where
  "k_pct' hitter pitcher =
     2.71828 powr (0.9427 * ln (k_pct hitter) + 0.9254 * ln (k_pct pitcher) + 1.5268)"

definition bb_pct' :: "profile \<Rightarrow> profile \<Rightarrow> real" where
  "bb_pct' hitter pitcher =
     2.71828 powr (0.906 * ln (bb_pct hitter) + 0.8644 * ln (bb_pct pitcher) + 1.9975)"

definition single_pct' :: "profile \<Rightarrow> profile \<Rightarrow> real" where
  "single_pct' hitter pitcher =
     2.71828 powr (1.01 * ln (single_pct hitter) + 1.017 * ln (single_pct pitcher) + 1.943)"

definition double_pct' :: "profile \<Rightarrow> profile \<Rightarrow> real" where
  "double_pct' hitter pitcher =
     0.9206 * double_pct hitter + 0.95779 * double_pct pitcher - 0.03968"

definition triple_pct' :: "profile \<Rightarrow> profile \<Rightarrow> real" where
  "triple_pct' hitter pitcher =
     2.71828 powr (0.8435 * ln (triple_pct hitter) + 0.8698 * ln (triple_pct pitcher) + 3.8809)"

definition hr_pct' :: "profile \<Rightarrow> profile \<Rightarrow> real" where
  "hr_pct' hitter pitcher =
     2.71828 powr (0.9576 * ln (hr_pct hitter) + 0.9268 * ln (hr_pct pitcher) + 3.2129)"

definition hbp_pct' :: "profile \<Rightarrow> profile \<Rightarrow> real" where
  "hbp_pct' hitter pitcher =
     2.71828 powr (0.8761 * ln (hbp_pct hitter) + 0.7623 * ln (hbp_pct pitcher) + 2.995)"

definition e_pct' :: "profile \<Rightarrow> profile \<Rightarrow> real" where
  "e_pct' hitter pitcher =
     (1 - (k_pct' hitter pitcher + bb_pct' hitter pitcher + hbp_pct' hitter pitcher)) * 0.016"

definition oip_pct' :: "profile \<Rightarrow> profile \<Rightarrow> real" where
  "oip_pct' hitter pitcher =
     1 - (k_pct' hitter pitcher + bb_pct' hitter pitcher + single_pct' hitter pitcher +
          double_pct' hitter pitcher + triple_pct' hitter pitcher + hr_pct' hitter pitcher +
          hbp_pct' hitter pitcher + e_pct' hitter pitcher)"

definition exp_runs_created :: "profile \<Rightarrow> profile \<Rightarrow> real" where
  "exp_runs_created hitter pitcher =
     LINEAR_WEIGHTS BB * bb_pct' hitter pitcher + LINEAR_WEIGHTS B1 * single_pct' hitter pitcher +
     LINEAR_WEIGHTS B2 * double_pct' hitter pitcher + LINEAR_WEIGHTS B3 * triple_pct' hitter pitcher +
     LINEAR_WEIGHTS HR * hr_pct' hitter pitcher + LINEAR_WEIGHTS HBP * hbp_pct' hitter pitcher +
     LINEAR_WEIGHTS K * k_pct' hitter pitcher + LINEAR_WEIGHTS E * e_pct' hitter pitcher +
     LINEAR_WEIGHTS OIP * oip_pct' hitter pitcher"

text \<open>The dictionary \<open>probabilities\<close>, in insertion order: \<open>keys()\<close> and \<open>values()\<close> list
  it in this order.\<close>

definition probabilities :: "profile \<Rightarrow> profile \<Rightarrow> (outcome \<times> real) list" where
  "probabilities hitter pitcher =
     [(K, k_pct' hitter pitcher), (BB, bb_pct' hitter pitcher), (B1, single_pct' hitter pitcher),
      (B2, double_pct' hitter pitcher), (B3, triple_pct' hitter pitcher), (HR, hr_pct' hitter pitcher),
      (HBP, hbp_pct' hitter pitcher), (E, e_pct' hitter pitcher), (OIP, oip_pct' hitter pitcher)]"

subsection \<open>\<open>random.choices\<close>\<close>

text \<open>
  \<open>random.choices(population, weights, k=1)\<close> is the standard library's, not code of the
  repository. The model follows \<open>Lib/random.py\<close> of CPython 3.9 and later: it accumulates
  the weights, rejects cumulative weights of another length than the population, rejects a
  total that is not positive, scales one value \<open>r\<close> of \<open>random.random()\<close> (a float in
  \<open>[0, 1)\<close>) by the total and bisects the cumulative weights between index \<open>0\<close> and index
  \<open>n - 1\<close>. The value \<open>r\<close> is a parameter of the model. (Before 3.9 the check of the
  total is missing; in \<open>sim_plate_app\<close> the total is 1, so the check never fires.)
\<close>

fun accumulate_from :: "real \<Rightarrow> real list \<Rightarrow> real list" where
  "accumulate_from t [] = []"
| "accumulate_from t (w # ws) = (t + w) # accumulate_from (t + w) ws"

definition accumulate :: "real list \<Rightarrow> real list" where
  "accumulate ws = (case ws of [] \<Rightarrow> [] | w # rest \<Rightarrow> w # accumulate_from w rest)"

function bisect_right :: "real list \<Rightarrow> real \<Rightarrow> nat \<Rightarrow> nat \<Rightarrow> nat" where
  "bisect_right a x lo hi =
     (if lo < hi then
        (let mid = (lo + hi) div 2 in
         if x < a ! mid then bisect_right a x lo mid else bisect_right a x (mid + 1) hi)
      else lo)"
  by pat_completeness auto
termination
  by (relation "measure (\<lambda>(a, x, lo, hi). hi - lo)") auto

declare bisect_right.simps [simp del]

definition choices :: "'a list \<Rightarrow> real list \<Rightarrow> real \<Rightarrow> error + 'a" where
  "choices population weights r =
     (let cum_weights = accumulate weights in
      if length cum_weights \<noteq> length population then Inl ValueError
      else if cum_weights = [] then Inl IndexError
      else
        let total = last cum_weights in
        if total \<le> 0 then Inl ValueError
        else Inr (population ! bisect_right cum_weights (r * total) 0 (length population - 1)))"

text \<open>\<open>sim_plate_app\<close>: the logarithms first (a \<open>ValueError\<close> when a rate is not positive),
  then the draw. The result is the pair the source returns.\<close>

definition sim_plate_app :: "profile \<Rightarrow> profile \<Rightarrow> real \<Rightarrow> error + (outcome \<times> real)" where
  "sim_plate_app hitter pitcher r =
     (if \<not> (log_args_positive hitter \<and> log_args_positive pitcher) then Inl ValueError
      else
        case choices (map fst (probabilities hitter pitcher))
                     (map snd (probabilities hitter pitcher)) r of
          Inl err \<Rightarrow> Inl err
        | Inr simulated_outcome \<Rightarrow> Inr (simulated_outcome, exp_runs_created hitter pitcher))"

section \<open>One game: \<open>sim_game\<close>\<close>

text \<open>
  A data frame of \<open>sim_game\<close> has the row labels \<open>0..8\<close> (innings) and the column labels
  \<open>1..9\<close> (batting slots). It is modelled as a function from row label and column label to the
  cell. The loop only ever addresses cells inside this 9 by 9 range (\<open>inning - 1 \<le> 8\<close> while
  \<open>outs < 27\<close>, and \<open>position_in_order\<close> is in \<open>1..9\<close>), so a frame never grows.
\<close>

type_synonym grid = "nat \<Rightarrow> nat \<Rightarrow> real"

definition zero_grid :: grid where
  "zero_grid = (\<lambda>row col. 0)"

definition grid_set :: "grid \<Rightarrow> nat \<Rightarrow> nat \<Rightarrow> real \<Rightarrow> grid" where
  "grid_set g row col v = g(row := (g row)(col := v))"

definition grid_add :: "grid \<Rightarrow> grid \<Rightarrow> grid" where
  "grid_add g h = (\<lambda>row col. g row col + h row col)"

definition grid_div :: "grid \<Rightarrow> int \<Rightarrow> grid" where
  "grid_div g n = (\<lambda>row col. g row col / real_of_int n)"

text \<open>\<open>df.sum().sum()\<close>: the sum of the 81 cells.\<close>

definition grand_total :: "grid \<Rightarrow> real" where
  "grand_total g = (\<Sum>row<9. \<Sum>col\<in>{1..9}. g row col)"

text \<open>Positional and label access to the rows of a data frame whose index is \<open>0..n-1\<close>
  (after \<open>reset_index\<close>): out of range, \<open>iloc\<close> raises \<open>IndexError\<close> and \<open>loc\<close> raises
  \<open>KeyError\<close>.\<close>

definition iloc :: "'a list \<Rightarrow> nat \<Rightarrow> error + 'a" where
  "iloc rows i = (if i < length rows then Inr (rows ! i) else Inl IndexError)"

definition loc :: "'a list \<Rightarrow> nat \<Rightarrow> error + 'a" where
  "loc rows i = (if i < length rows then Inr (rows ! i) else Inl KeyError)"

text \<open>The local variables of \<open>sim_game\<close>. \<open>random_calls\<close> makes the hidden state of the
  random source explicit: it counts the values taken from it so far, and the source itself
  is a sequence \<open>rnd\<close> of values, the \<open>n\<close>-th call of \<open>random.random()\<close> returning
  \<open>rnd n\<close>.\<close>

record game_state =
  sim_rc_per_hitter_per_inning :: grid
  sim_pa_per_hitter_per_inning :: grid
  current_pitcher :: nat
  position_in_order :: nat
  outs :: nat
  total_plate_apps :: nat
  outs_at_pitching_change :: nat
  random_calls :: nat

definition initial_state :: "bool \<Rightarrow> nat \<Rightarrow> game_state" where
  "initial_state using_opener calls =
     \<lparr> sim_rc_per_hitter_per_inning = zero_grid,
       sim_pa_per_hitter_per_inning = zero_grid,
       current_pitcher = (if using_opener then 1 else 2),
       position_in_order = 0,
       outs = 0,
       total_plate_apps = 0,
       outs_at_pitching_change = 0,
       random_calls = calls \<rparr>"

text \<open>Lines 80 to 94, "when to change pitchers": from the out count, the plate appearance
  count already incremented, the current pitcher and the marker, the new current pitcher
  and the new marker. The two \<open>if\<close> statements of a branch run one after the other.\<close>

definition change_pitchers :: "bool \<Rightarrow> nat \<Rightarrow> nat \<Rightarrow> nat \<Rightarrow> nat \<Rightarrow> nat \<times> nat" where
  "change_pitchers using_opener outs_now plate_apps pitcher marker =
     (if using_opener then
        (let pitcher1 = (if outs_now = 3 \<and> pitcher = 1 then 2 else pitcher);
             pitcher2 = (if plate_apps > 27 \<and> pitcher1 = 2 then 3 else pitcher1)
         in (pitcher2, marker))
      else
        (let (pitcher1, marker1) =
               (if plate_apps > 24 \<and> pitcher = 2 then (1, outs_now) else (pitcher, marker));
             pitcher2 = (if outs_now = marker1 + 3 \<and> pitcher1 = 1 then 3 else pitcher1)
         in (pitcher2, marker1)))"

text \<open>One iteration of the \<open>while\<close> loop (lines 70 to 105).\<close>

definition loop_body ::
  "profile list \<Rightarrow> profile list \<Rightarrow> bool \<Rightarrow> (nat \<Rightarrow> real) \<Rightarrow> game_state \<Rightarrow> error + game_state" where
  "loop_body pitchers_df hitters_df using_opener rnd s =
     (let plate_apps = total_plate_apps s + 1;
          position = position_in_order s mod 9 + 1;
          inning = outs s div 3 + 1;
          pa_grid = grid_set (sim_pa_per_hitter_per_inning s) (inning - 1) position 1;
          (pitcher_role, marker) =
             change_pitchers using_opener (outs s) plate_apps (current_pitcher s)
               (outs_at_pitching_change s)
      in case iloc hitters_df (position - 1) of
           Inl err \<Rightarrow> Inl err
         | Inr hitter \<Rightarrow>
            (case loc pitchers_df (pitcher_role - 1) of
               Inl err \<Rightarrow> Inl err
             | Inr pitcher \<Rightarrow>
                (case sim_plate_app hitter pitcher (rnd (random_calls s)) of
                   Inl err \<Rightarrow> Inl err
                 | Inr (simulated_outcome, runs) \<Rightarrow>
                     Inr \<lparr> sim_rc_per_hitter_per_inning =
                             grid_set (sim_rc_per_hitter_per_inning s) (inning - 1) position
                               (sim_rc_per_hitter_per_inning s (inning - 1) position + runs),
                           sim_pa_per_hitter_per_inning = pa_grid,
                           current_pitcher = pitcher_role,
                           position_in_order = position,
                           outs = (if simulated_outcome \<in> {K, OIP} then outs s + 1 else outs s),
                           total_plate_apps = plate_apps,
                           outs_at_pitching_change = marker,
                           random_calls = random_calls s + 1 \<rparr>)))"

text \<open>The \<open>while outs < 27\<close> loop. It has no bound on its iterations, so its model is a
  partial function: \<open>None\<close> is the run that never leaves the loop, \<open>Some (Inl err)\<close> the run
  that raises, \<open>Some (Inr s)\<close> the run that leaves the loop in state \<open>s\<close>.\<close>

partial_function (option) sim_loop ::
  "profile list \<Rightarrow> profile list \<Rightarrow> bool \<Rightarrow> (nat \<Rightarrow> real) \<Rightarrow> game_state \<Rightarrow> (error + game_state) option" where
  "sim_loop pitchers_df hitters_df using_opener rnd s =
     (if outs s < 27 then
        (case loop_body pitchers_df hitters_df using_opener rnd s of
           Inl err \<Rightarrow> Some (Inl err)
         | Inr s' \<Rightarrow> sim_loop pitchers_df hitters_df using_opener rnd s')
      else Some (Inr s))"

text \<open>The same loop cut off after \<open>n\<close> iterations: the state reached after at most \<open>n\<close>
  plate appearances. It names the intermediate states of a run.\<close>

fun loop_upto ::
  "profile list \<Rightarrow> profile list \<Rightarrow> bool \<Rightarrow> (nat \<Rightarrow> real) \<Rightarrow> nat \<Rightarrow> game_state \<Rightarrow> error + game_state" where
  "loop_upto pitchers_df hitters_df using_opener rnd 0 s = Inr s"
| "loop_upto pitchers_df hitters_df using_opener rnd (Suc n) s =
     (if outs s < 27 then
        (case loop_body pitchers_df hitters_df using_opener rnd s of
           Inl err \<Rightarrow> Inl err
         | Inr s' \<Rightarrow> loop_upto pitchers_df hitters_df using_opener rnd n s')
      else Inr s)"

text \<open>\<open>sim_game\<close> returns the two grids; the third component is the position of the random
  source after the game.\<close>

definition sim_game ::
  "profile list \<Rightarrow> profile list \<Rightarrow> bool \<Rightarrow> (nat \<Rightarrow> real) \<Rightarrow> nat \<Rightarrow> (error + (grid \<times> grid \<times> nat)) option" where
  "sim_game pitchers_df hitters_df using_opener rnd calls =
     (case sim_loop pitchers_df hitters_df using_opener rnd (initial_state using_opener calls) of
        None \<Rightarrow> None
      | Some (Inl err) \<Rightarrow> Some (Inl err)
      | Some (Inr s) \<Rightarrow>
          Some (Inr (sim_rc_per_hitter_per_inning s, sim_pa_per_hitter_per_inning s, random_calls s)))"

section \<open>The batch of games: \<open>simulation\<close>\<close>

text \<open>The \<open>for\<close> loop of \<open>simulation\<close> (lines 129 to 132) over the two running sums and the
  position of the random source.\<close>

fun games_loop ::
  "profile list \<Rightarrow> profile list \<Rightarrow> bool \<Rightarrow> (nat \<Rightarrow> real) \<Rightarrow> nat \<Rightarrow> grid \<times> grid \<times> nat \<Rightarrow>
   (error + (grid \<times> grid \<times> nat)) option" where
  "games_loop pitchers_df hitters_df using_opener rnd 0 acc = Some (Inr acc)"
| "games_loop pitchers_df hitters_df using_opener rnd (Suc n) (sum_rc, sum_pa, calls) =
     (case sim_game pitchers_df hitters_df using_opener rnd calls of
        None \<Rightarrow> None
      | Some (Inl err) \<Rightarrow> Some (Inl err)
      | Some (Inr (game_sim_rc_df, game_sim_pa_df, calls')) \<Rightarrow>
          games_loop pitchers_df hitters_df using_opener rnd n
            (grid_add sum_rc game_sim_rc_df, grid_add sum_pa game_sim_pa_df, calls'))"

text \<open>The two averaged frames, the local variables \<open>sim_rc_df\<close> and \<open>sim_pa_df\<close> of
  \<open>simulation\<close> (lines 122 to 135), with the position of the random source. The rows are
  sorted by \<open>order\<close> first; rows of equal \<open>order\<close> keep their relative position here, which
  \<open>sort_values\<close> does not promise, and nothing below relies on it. \<open>range(sample_size)\<close> is
  empty for a \<open>sample_size\<close> that is not positive.\<close>

definition averaged_grids ::
  "profile list \<Rightarrow> profile list \<Rightarrow> bool \<Rightarrow> int \<Rightarrow> (nat \<Rightarrow> real) \<Rightarrow> nat \<Rightarrow>
   (error + (grid \<times> grid \<times> nat)) option" where
  "averaged_grids pitchers_df hitters_df using_opener sample_size rnd calls =
     (case games_loop (sort_key order pitchers_df) (sort_key order hitters_df) using_opener rnd
             (nat sample_size) (zero_grid, zero_grid, calls) of
        None \<Rightarrow> None
      | Some (Inl err) \<Rightarrow> Some (Inl err)
      | Some (Inr (sum_rc, sum_pa, calls')) \<Rightarrow>
          Some (Inr (grid_div sum_rc sample_size, grid_div sum_pa sample_size, calls')))"

text \<open>\<open>simulation\<close> returns \<open>sim_rc_df.sum().sum()\<close> and nothing else (line 139); the second
  component is the position of the random source after the call. With \<open>sample_size = 0\<close>
  every cell is \<open>0/0\<close>, which \<open>sum\<close> skips.\<close>

definition simulation ::
  "profile list \<Rightarrow> profile list \<Rightarrow> bool \<Rightarrow> int \<Rightarrow> (nat \<Rightarrow> real) \<Rightarrow> nat \<Rightarrow> (error + (real \<times> nat)) option" where
  "simulation pitchers_df hitters_df using_opener sample_size rnd calls =
     (case averaged_grids pitchers_df hitters_df using_opener sample_size rnd calls of
        None \<Rightarrow> None
      | Some (Inl err) \<Rightarrow> Some (Inl err)
      | Some (Inr (sim_rc_df, sim_pa_df, calls')) \<Rightarrow>
          Some (Inr (if sample_size = 0 then 0 else grand_total sim_rc_df, calls')))"

section \<open>Inputs that do not raise, and invariants of the loop\<close>

text \<open>The rosters on which no lookup and no logarithm of \<open>sim_game\<close> raises: three pitcher
  rows, nine hitter rows, and a positive rate wherever a logarithm is taken.\<close>

definition rosters_ok :: "profile list \<Rightarrow> profile list \<Rightarrow> bool" where
  "rosters_ok pitchers_df hitters_df \<longleftrightarrow>
     3 \<le> length pitchers_df \<and> 9 \<le> length hitters_df \<and>
     (\<forall>i<3. log_args_positive (pitchers_df ! i)) \<and>
     (\<forall>i<9. log_args_positive (hitters_df ! i))"

text \<open>What the counters satisfy at the head of the loop, for a game that started with the
  random source at position \<open>calls\<close>.\<close>

definition counters_ok :: "nat \<Rightarrow> game_state \<Rightarrow> bool" where
  "counters_ok calls s \<longleftrightarrow>
     outs s \<le> total_plate_apps s \<and> outs s \<le> 27 \<and> random_calls s = calls + total_plate_apps s"

text \<open>The invariant of the opener-first branch at the head of the loop.\<close>

definition opener_inv :: "game_state \<Rightarrow> bool" where
  "opener_inv s \<longleftrightarrow>
     (outs s < 3 \<longrightarrow> current_pitcher s = 1) \<and>
     (current_pitcher s = 1 \<longrightarrow> outs s \<le> 3) \<and>
     (current_pitcher s = 2 \<longrightarrow> total_plate_apps s \<le> 27) \<and>
     (current_pitcher s = 3 \<longrightarrow> 27 < total_plate_apps s)"

text \<open>The invariant of the starter-first branch at the head of the loop.\<close>

definition starter_inv :: "game_state \<Rightarrow> bool" where
  "starter_inv s \<longleftrightarrow>
     (total_plate_apps s \<le> 24 \<longrightarrow> current_pitcher s = 2) \<and>
     (24 < total_plate_apps s \<longrightarrow>
        (current_pitcher s = 1 \<or> current_pitcher s = 3) \<and>
        (current_pitcher s = 1 \<longrightarrow> outs s \<le> outs_at_pitching_change s + 3) \<and>
        (current_pitcher s = 3 \<longrightarrow> outs_at_pitching_change s + 3 \<le> outs s))"

text \<open>The invariant of a game in which every plate appearance is a strikeout and the
  expected runs do not depend on the pitching role: the runs grid holds one value per plate
  appearance so far, and its cell for inning 1 and slot 1 holds the value of the first.\<close>

definition strikeout_inv :: "profile list \<Rightarrow> profile list \<Rightarrow> game_state \<Rightarrow> bool" where
  "strikeout_inv ps hs s \<longleftrightarrow>
     outs s = total_plate_apps s \<and>
     position_in_order s mod 9 = total_plate_apps s mod 9 \<and>
     grand_total (sim_rc_per_hitter_per_inning s) =
       (\<Sum>n<total_plate_apps s. exp_runs_created (hs ! (n mod 9)) (ps ! 0)) \<and>
     sim_rc_per_hitter_per_inning s 0 1 =
       (if total_plate_apps s = 0 then 0 else exp_runs_created (hs ! 0) (ps ! 0))"

section \<open>Concrete inputs\<close>

text \<open>The profile of the end-to-end scenario of the specification, in batting slot or
  pitching role \<open>n\<close>.\<close>

definition league_average :: "int \<Rightarrow> profile" where
  "league_average n =
     \<lparr> order = n, k_pct = 0.20, bb_pct = 0.08, single_pct = 0.15, double_pct = 0.05,
       triple_pct = 0.005, hr_pct = 0.03, hbp_pct = 0.01 \<rparr>"

text \<open>The same hitter with one more double in a hundred plate appearances.\<close>

definition doubles_hitter :: "int \<Rightarrow> profile" where
  "doubles_hitter n = (league_average n) \<lparr> double_pct := 0.06 \<rparr>"

text \<open>A player for whom nearly every plate appearance is a home run.\<close>

definition home_run_profile :: "int \<Rightarrow> profile" where
  "home_run_profile n =
     \<lparr> order = n, k_pct = 0.0001, bb_pct = 0.0001, single_pct = 0.0001, double_pct = 0.0001,
       triple_pct = 0.0001, hr_pct = 0.99, hbp_pct = 0.0001 \<rparr>"

definition staff :: "profile list" where
  "staff = [league_average 1, league_average 2, league_average 3]"

definition lineup :: "profile list" where
  "lineup = [league_average 1, league_average 2, league_average 3, league_average 4,
             league_average 5, league_average 6, league_average 7, league_average 8,
             league_average 9]"

definition lineup_a :: "profile list" where
  "lineup_a = [doubles_hitter 1, league_average 2, league_average 3, league_average 4,
               league_average 5, league_average 6, league_average 7, league_average 8,
               league_average 9]"

definition lineup_b :: "profile list" where
  "lineup_b = [league_average 1, doubles_hitter 2, league_average 3, league_average 4,
               league_average 5, league_average 6, league_average 7, league_average 8,
               league_average 9]"

definition home_run_staff :: "profile list" where
  "home_run_staff = [home_run_profile 1, home_run_profile 2, home_run_profile 3]"

definition home_run_lineup :: "profile list" where
  "home_run_lineup = [home_run_profile 1, home_run_profile 2, home_run_profile 3,
                      home_run_profile 4, home_run_profile 5, home_run_profile 6,
                      home_run_profile 7, home_run_profile 8, home_run_profile 9]"

text \<open>A random source that returns \<open>0.0\<close> at every call.\<close>

definition zero_draws :: "nat \<Rightarrow> real" where
  "zero_draws n = 0"

section \<open>The specification's words, for comparison\<close>

text \<open>The specification's batch runner: play \<open>n\<close> games one after the other on the shared
  random source and keep each game's pair of grids.\<close>

fun play_games ::
  "profile list \<Rightarrow> profile list \<Rightarrow> bool \<Rightarrow> (nat \<Rightarrow> real) \<Rightarrow> nat \<Rightarrow> nat \<Rightarrow>
   (error + ((grid \<times> grid) list \<times> nat)) option" where
  "play_games pitchers_df hitters_df using_opener rnd 0 calls = Some (Inr ([], calls))"
| "play_games pitchers_df hitters_df using_opener rnd (Suc n) calls =
     (case sim_game pitchers_df hitters_df using_opener rnd calls of
        None \<Rightarrow> None
      | Some (Inl err) \<Rightarrow> Some (Inl err)
      | Some (Inr (rc, pa, calls')) \<Rightarrow>
          (case play_games pitchers_df hitters_df using_opener rnd n calls' of
             None \<Rightarrow> None
           | Some (Inl err) \<Rightarrow> Some (Inl err)
           | Some (Inr (games, calls'')) \<Rightarrow> Some (Inr ((rc, pa) # games, calls''))))"

text \<open>"The returned float equals \<open>1/N\<close> times the sum of the per-game runs-grid totals."\<close>

definition spec_simulation ::
  "profile list \<Rightarrow> profile list \<Rightarrow> bool \<Rightarrow> int \<Rightarrow> (nat \<Rightarrow> real) \<Rightarrow> nat \<Rightarrow> (error + (real \<times> nat)) option" where
  "spec_simulation pitchers_df hitters_df using_opener sample_size rnd calls =
     (case play_games (sort_key order pitchers_df) (sort_key order hitters_df) using_opener rnd
             (nat sample_size) calls of
        None \<Rightarrow> None
      | Some (Inl err) \<Rightarrow> Some (Inl err)
      | Some (Inr (games, calls')) \<Rightarrow>
          Some (Inr (1 / real_of_int sample_size * (\<Sum>(rc, pa) \<leftarrow> games. grand_total rc), calls')))"

text \<open>"A zero-or-negative weight should be treated as zero probability": the weights with
  every entry that is not positive replaced by zero.\<close>

definition clamp_weights :: "real list \<Rightarrow> real list" where
  "clamp_weights weights = map (\<lambda>w. if w \<le> 0 then 0 else w) weights"

text \<open>The specification's log-linear regression, \<open>exp(a ln(hitter_rate) + b ln(pitcher_rate) + c)\<close>,
  with the base of the exponential as a parameter: the specification's \<open>exp\<close> is the base
  \<open>exp 1\<close>. Then the dictionary of probabilities that the specification describes.\<close>

definition spec_log_linear :: "real \<Rightarrow> real \<Rightarrow> real \<Rightarrow> real \<Rightarrow> real \<Rightarrow> real \<Rightarrow> real" where
  "spec_log_linear base a b c hitter_rate pitcher_rate =
     base powr (a * ln hitter_rate + b * ln pitcher_rate + c)"

definition spec_probabilities :: "real \<Rightarrow> profile \<Rightarrow> profile \<Rightarrow> (outcome \<times> real) list" where
  "spec_probabilities base hitter pitcher =
     (let k = spec_log_linear base 0.9427 0.9254 1.5268 (k_pct hitter) (k_pct pitcher);
          bb = spec_log_linear base 0.906 0.8644 1.9975 (bb_pct hitter) (bb_pct pitcher);
          single = spec_log_linear base 1.01 1.017 1.943 (single_pct hitter) (single_pct pitcher);
          double = 0.9206 * double_pct hitter + 0.95779 * double_pct pitcher + (- 0.03968);
          triple = spec_log_linear base 0.8435 0.8698 3.8809 (triple_pct hitter) (triple_pct pitcher);
          hr = spec_log_linear base 0.9576 0.9268 3.2129 (hr_pct hitter) (hr_pct pitcher);
          hbp = spec_log_linear base 0.8761 0.7623 2.995 (hbp_pct hitter) (hbp_pct pitcher);
          e = (1 - (k + bb + hbp)) * 0.016;
          oip = 1 - (k + bb + single + double + triple + hr + hbp + e)
      in [(K, k), (BB, bb), (B1, single), (B2, double), (B3, triple), (HR, hr), (HBP, hbp),
          (E, e), (OIP, oip)])"

section \<open>Properties\<close>

subsection \<open>The weighted draw\<close>

text \<open>The cumulative weights are the partial sums, and the index that the bisection returns is bracketed by them even when they are not monotone.\<close>

lemma length_accumulate_from: "length (accumulate_from t ws) = length ws"
  by (induction ws arbitrary: t) auto

lemma nth_accumulate_from:
  "i < length ws \<Longrightarrow> accumulate_from t ws ! i = t + sum_list (take (Suc i) ws)"
proof (induction ws arbitrary: t i)
  case Nil
  then show ?case by simp
next
  case (Cons w ws)
  then show ?case by (cases i) (auto simp: add.assoc)
qed

lemma accumulate_eq: "accumulate ws = accumulate_from 0 ws"
  by (cases ws) (auto simp: accumulate_def)

lemma length_accumulate: "length (accumulate ws) = length ws"
  by (simp add: accumulate_eq length_accumulate_from)

lemma nth_accumulate: "i < length ws \<Longrightarrow> accumulate ws ! i = sum_list (take (Suc i) ws)"
  by (simp add: accumulate_eq nth_accumulate_from)

lemma last_accumulate: "ws \<noteq> [] \<Longrightarrow> last (accumulate ws) = sum_list ws"
proof -
  assume ne: "ws \<noteq> []"
  then have "accumulate ws \<noteq> []"
    using length_accumulate [of ws] by auto
  then have "last (accumulate ws) = accumulate ws ! (length ws - 1)"
    by (simp add: last_conv_nth length_accumulate)
  also have "\<dots> = sum_list (take (Suc (length ws - 1)) ws)"
    using ne by (intro nth_accumulate) simp
  finally show ?thesis using ne by simp
qed

lemma nth_accumulate_step:
  assumes "0 < i" "i < length ws"
  shows "accumulate ws ! i = accumulate ws ! (i - 1) + ws ! i"
proof -
  from assms obtain j where j: "i = Suc j" by (cases i) auto
  with assms show ?thesis
    by (simp add: nth_accumulate take_Suc_conv_app_nth [of "Suc j" ws])
qed

lemma bisect_right_range:
  "lo \<le> hi \<Longrightarrow> lo \<le> bisect_right a x lo hi \<and> bisect_right a x lo hi \<le> hi"
proof (induction a x lo hi rule: bisect_right.induct)
  case (1 a x lo hi)
  show ?case
  proof (cases "lo < hi")
    case False
    then have "bisect_right a x lo hi = lo" by (subst bisect_right.simps) simp
    with "1.prems" False show ?thesis by simp
  next
    case True
    define mid where "mid = (lo + hi) div 2"
    have m: "lo \<le> mid" "mid < hi" using True by (auto simp: mid_def)
    show ?thesis
    proof (cases "x < a ! mid")
      case True
      with "1.IH"(1) [OF \<open>lo < hi\<close> mid_def [symmetric, THEN sym] True] m \<open>lo < hi\<close> show ?thesis
        by (simp add: bisect_right.simps [of a x lo hi] mid_def Let_def)
    next
      case False
      with "1.IH"(2) [OF \<open>lo < hi\<close> mid_def [symmetric, THEN sym] False] m \<open>lo < hi\<close> show ?thesis
        by (simp add: bisect_right.simps [of a x lo hi] mid_def Let_def)
    qed
  qed
qed

lemma bisect_right_bracket:
  "lo \<le> hi \<Longrightarrow>
     (bisect_right a x lo hi = lo \<or> a ! (bisect_right a x lo hi - 1) \<le> x) \<and>
     (bisect_right a x lo hi = hi \<or> x < a ! bisect_right a x lo hi)"
proof (induction a x lo hi rule: bisect_right.induct)
  case (1 a x lo hi)
  show ?case
  proof (cases "lo < hi")
    case False
    then have "bisect_right a x lo hi = lo" by (subst bisect_right.simps) simp
    with "1.prems" False show ?thesis by simp
  next
    case True
    define mid where "mid = (lo + hi) div 2"
    have m: "lo \<le> mid" "mid < hi" using True by (auto simp: mid_def)
    show ?thesis
    proof (cases "x < a ! mid")
      case lt: True
      have eq: "bisect_right a x lo hi = bisect_right a x lo mid"
        using True lt by (simp add: bisect_right.simps [of a x lo hi] mid_def Let_def)
      have ih: "(bisect_right a x lo mid = lo \<or> a ! (bisect_right a x lo mid - 1) \<le> x) \<and>
                (bisect_right a x lo mid = mid \<or> x < a ! bisect_right a x lo mid)"
        using "1.IH"(1) [OF True mid_def [symmetric, THEN sym] lt] m by simp
      show ?thesis unfolding eq using ih lt by auto
    next
      case ge: False
      have eq: "bisect_right a x lo hi = bisect_right a x (mid + 1) hi"
        using True ge by (simp add: bisect_right.simps [of a x lo hi] mid_def Let_def)
      have ih: "(bisect_right a x (mid + 1) hi = mid + 1 \<or> a ! (bisect_right a x (mid + 1) hi - 1) \<le> x) \<and>
                (bisect_right a x (mid + 1) hi = hi \<or> x < a ! bisect_right a x (mid + 1) hi)"
        using "1.IH"(2) [OF True mid_def [symmetric, THEN sym] ge] m by simp
      have r: "mid + 1 \<le> bisect_right a x (mid + 1) hi"
        using bisect_right_range [of "mid + 1" hi a x] m by simp
      show ?thesis unfolding eq using ih ge r m by auto
    qed
  qed
qed


lemma choices_draws_positive_weight:
  assumes ne: "weights \<noteq> []" and len: "length population = length weights"
    and tot: "0 < sum_list weights" and r: "0 \<le> r" "r < 1"
  shows "\<exists>i<length weights. choices population weights r = Inr (population ! i) \<and> 0 < weights ! i"
proof -
  define cum where "cum = accumulate weights"
  define n where "n = length weights"
  define x where "x = r * sum_list weights"
  define i where "i = bisect_right cum x 0 (n - 1)"
  have n: "0 < n" using ne by (simp add: n_def)
  have total: "last cum = sum_list weights"
    using ne by (simp add: cum_def last_accumulate)
  have lcum: "length cum = n" by (simp add: cum_def n_def length_accumulate)
  have x: "0 \<le> x" "x < sum_list weights"
    using r tot by (auto simp: x_def)
  have res: "choices population weights r = Inr (population ! i)"
    using ne len tot total lcum n
    by (auto simp: choices_def Let_def cum_def [symmetric] i_def x_def n_def)
  have range: "i \<le> n - 1" using bisect_right_range [of 0 "n - 1" cum x] by (simp add: i_def)
  have br: "(i = 0 \<or> cum ! (i - 1) \<le> x) \<and> (i = n - 1 \<or> x < cum ! i)"
    using bisect_right_bracket [of 0 "n - 1" cum x] by (simp add: i_def)
  have lt: "i < n" using range n by simp
  have upper: "x < cum ! i"
  proof (cases "i = n - 1")
    case True
    have "cum \<noteq> []" using n lcum by auto
    then have "cum ! (n - 1) = last cum" using lcum by (simp add: last_conv_nth)
    with True total x show ?thesis by simp
  next
    case False
    with br show ?thesis by simp
  qed
  have "0 < weights ! i"
  proof (cases "i = 0")
    case True
    have "cum ! 0 = weights ! 0"
      using n by (simp add: cum_def nth_accumulate n_def take_Suc_conv_app_nth)
    with True upper x show ?thesis by simp
  next
    case False
    then have "cum ! (i - 1) \<le> x" using br by simp
    moreover have "cum ! i = cum ! (i - 1) + weights ! i"
      using False lt by (simp add: cum_def n_def nth_accumulate_step)
    ultimately show ?thesis using upper by simp
  qed
  with res lt show ?thesis by (auto simp: n_def)
qed

subsection \<open>The plate appearance\<close>

lemma probabilities_total: "sum_list (map snd (probabilities hitter pitcher)) = 1"
  by (simp add: probabilities_def oip_pct'_def)

lemma probabilities_keys:
  "map fst (probabilities hitter pitcher) = [K, BB, B1, B2, B3, HR, HBP, E, OIP]"
  by (simp add: probabilities_def)

lemma exp_runs_created_dot:
  "exp_runs_created hitter pitcher =
     (\<Sum>(c, p) \<leftarrow> probabilities hitter pitcher. LINEAR_WEIGHTS c * p)"
  by (simp add: probabilities_def exp_runs_created_def)

lemma sim_plate_app_returns:
  assumes "log_args_positive hitter" "log_args_positive pitcher" "0 \<le> r" "r < 1"
  shows "\<exists>i<9. sim_plate_app hitter pitcher r =
            Inr (fst (probabilities hitter pitcher ! i), exp_runs_created hitter pitcher) \<and>
          0 < snd (probabilities hitter pitcher ! i)"
proof -
  let ?ps = "probabilities hitter pitcher"
  have l: "length ?ps = 9" by (simp add: probabilities_def)
  have "\<exists>i<length (map snd ?ps). choices (map fst ?ps) (map snd ?ps) r = Inr (map fst ?ps ! i) \<and>
          0 < map snd ?ps ! i"
    using assms(3,4) l by (intro choices_draws_positive_weight) (auto simp: probabilities_total)
  then obtain i where "i < 9" "choices (map fst ?ps) (map snd ?ps) r = Inr (map fst ?ps ! i)"
    "0 < map snd ?ps ! i" using l by auto
  then show ?thesis using assms(1,2) l
    by (intro exI [of _ i]) (simp add: sim_plate_app_def)
qed

lemma sim_plate_app_Inr:
  assumes "log_args_positive hitter" "log_args_positive pitcher"
  shows "\<exists>oc. sim_plate_app hitter pitcher r = Inr (oc, exp_runs_created hitter pitcher)"
proof -
  let ?ps = "probabilities hitter pitcher"
  have l: "length ?ps = 9" by (simp add: probabilities_def)
  then have ne: "map snd ?ps \<noteq> []" by auto
  have tot: "last (accumulate (map snd ?ps)) = 1"
    using last_accumulate [OF ne] by (simp add: probabilities_total)
  have ne': "accumulate (map snd ?ps) \<noteq> []"
    using length_accumulate [of "map snd ?ps"] l by auto
  show ?thesis using assms l ne' tot
    by (simp add: sim_plate_app_def choices_def Let_def length_accumulate)
qed

subsection \<open>One iteration of the loop\<close>

lemma change_pitchers_role:
  "pitcher \<in> {1, 2, 3} \<Longrightarrow> fst (change_pitchers uo o_now pa pitcher marker) \<in> {1, 2, 3}"
  by (auto simp: change_pitchers_def Let_def split: if_splits)

lemma loop_body_explicit:
  assumes ok: "rosters_ok ps hs" and cp: "current_pitcher s \<in> {1, 2, 3}"
    and cm: "change_pitchers uo (outs s) (Suc (total_plate_apps s)) (current_pitcher s)
                (outs_at_pitching_change s) = (role, marker)"
    and oc: "sim_plate_app (hs ! (position_in_order s mod 9)) (ps ! (role - Suc 0))
                (rnd (random_calls s)) = Inr (oc, runs)"
  shows "loop_body ps hs uo rnd s =
           Inr \<lparr> sim_rc_per_hitter_per_inning =
                   grid_set (sim_rc_per_hitter_per_inning s) (outs s div 3)
                     (Suc (position_in_order s mod 9))
                     (sim_rc_per_hitter_per_inning s (outs s div 3)
                        (Suc (position_in_order s mod 9)) + runs),
                 sim_pa_per_hitter_per_inning =
                   grid_set (sim_pa_per_hitter_per_inning s) (outs s div 3)
                     (Suc (position_in_order s mod 9)) 1,
                 current_pitcher = role,
                 position_in_order = Suc (position_in_order s mod 9),
                 outs = (if oc \<in> {K, OIP} then Suc (outs s) else outs s),
                 total_plate_apps = Suc (total_plate_apps s),
                 outs_at_pitching_change = marker,
                 random_calls = Suc (random_calls s) \<rparr>"
proof -
  have pos: "position_in_order s mod 9 < 9" by simp
  have "fst (change_pitchers uo (outs s) (Suc (total_plate_apps s)) (current_pitcher s)
                (outs_at_pitching_change s)) \<in> {1, 2, 3}"
    using cp by (rule change_pitchers_role)
  then have r3: "role - Suc 0 < 3" using cm by auto
  have h: "iloc hs (position_in_order s mod 9) = Inr (hs ! (position_in_order s mod 9))"
    using ok pos by (auto simp: rosters_ok_def iloc_def)
  have p: "loc ps (role - Suc 0) = Inr (ps ! (role - Suc 0))"
    using ok r3 by (auto simp: rosters_ok_def loc_def)
  show ?thesis
    using h p oc cm by (simp add: loop_body_def Let_def)
qed

lemma loop_body_Inr:
  assumes ok: "rosters_ok ps hs" and cp: "current_pitcher s \<in> {1, 2, 3}"
  shows "\<exists>s'. loop_body ps hs uo rnd s = Inr s' \<and>
           total_plate_apps s' = Suc (total_plate_apps s) \<and>
           position_in_order s' = Suc (position_in_order s mod 9) \<and>
           (outs s' = outs s \<or> outs s' = Suc (outs s)) \<and>
           (current_pitcher s', outs_at_pitching_change s') =
              change_pitchers uo (outs s) (Suc (total_plate_apps s)) (current_pitcher s)
                (outs_at_pitching_change s) \<and>
           random_calls s' = Suc (random_calls s)"
proof -
  obtain role marker where cm:
    "change_pitchers uo (outs s) (Suc (total_plate_apps s)) (current_pitcher s)
                (outs_at_pitching_change s) = (role, marker)"
    by (cases "change_pitchers uo (outs s) (Suc (total_plate_apps s)) (current_pitcher s)
                (outs_at_pitching_change s)") auto
  have "fst (change_pitchers uo (outs s) (Suc (total_plate_apps s)) (current_pitcher s)
                (outs_at_pitching_change s)) \<in> {1, 2, 3}"
    using cp by (rule change_pitchers_role)
  then have r3: "role - Suc 0 < 3" using cm by auto
  have "log_args_positive (hs ! (position_in_order s mod 9))"
    "log_args_positive (ps ! (role - Suc 0))"
    using ok r3 by (auto simp: rosters_ok_def)
  then obtain oc where oc: "sim_plate_app (hs ! (position_in_order s mod 9)) (ps ! (role - Suc 0))
      (rnd (random_calls s)) =
      Inr (oc, exp_runs_created (hs ! (position_in_order s mod 9)) (ps ! (role - Suc 0)))"
    using sim_plate_app_Inr by blast
  show ?thesis
    unfolding loop_body_explicit [where rnd = rnd, OF ok cp cm oc] using cm by simp
qed

subsection \<open>The loop and its cut-off version\<close>

text \<open>The partial function returns exactly the states that the cut-off loop reaches with 27 outs.\<close>

lemma loop_upto_back:
  "loop_upto ps hs uo rnd (Suc n) s =
     (case loop_upto ps hs uo rnd n s of
        Inl err \<Rightarrow> Inl err
      | Inr t \<Rightarrow> if outs t < 27 then loop_body ps hs uo rnd t else Inr t)"
proof (induction n arbitrary: s)
  case 0
  show ?case by (simp split: sum.splits)
next
  case (Suc n)
  show ?case
  proof (cases "outs s < 27")
    case False
    then show ?thesis by simp
  next
    case True
    show ?thesis
    proof (cases "loop_body ps hs uo rnd s")
      case (Inl e)
      with True show ?thesis by simp
    next
      case (Inr s1)
      have "loop_upto ps hs uo rnd (Suc (Suc n)) s = loop_upto ps hs uo rnd (Suc n) s1"
        using True Inr by simp
      also have "\<dots> = (case loop_upto ps hs uo rnd n s1 of
        Inl err \<Rightarrow> Inl err
      | Inr t \<Rightarrow> if outs t < 27 then loop_body ps hs uo rnd t else Inr t)"
        by (rule Suc.IH)
      also have "loop_upto ps hs uo rnd n s1 = loop_upto ps hs uo rnd (Suc n) s"
        using True Inr by simp
      finally show ?thesis .
    qed
  qed
qed

lemma sim_loop_of_upto:
  "loop_upto ps hs uo rnd n s = Inr s' \<Longrightarrow> \<not> outs s' < 27 \<Longrightarrow>
     sim_loop ps hs uo rnd s = Some (Inr s')"
proof (induction n arbitrary: s)
  case 0
  then show ?case by (simp add: sim_loop.simps)
next
  case (Suc n)
  show ?case
  proof (cases "outs s < 27")
    case False
    with Suc.prems show ?thesis by (simp add: sim_loop.simps)
  next
    case True
    with Suc.prems obtain s1 where s1: "loop_body ps hs uo rnd s = Inr s1"
      "loop_upto ps hs uo rnd n s1 = Inr s'"
      by (auto split: sum.splits)
    from Suc.IH [OF s1(2) Suc.prems(2)] True s1(1) show ?thesis
      by (subst sim_loop.simps) simp
  qed
qed

lemma sim_loop_upto_ex:
  assumes "sim_loop ps hs uo rnd s = Some r"
  shows "\<exists>n. loop_upto ps hs uo rnd n s = r \<and> (\<forall>s'. r = Inr s' \<longrightarrow> \<not> outs s' < 27)"
proof (rule sim_loop.raw_induct
    [where P = "\<lambda>ps hs uo rnd s r. \<exists>n. loop_upto ps hs uo rnd n s = r \<and>
                  (\<forall>s'. r = Inr s' \<longrightarrow> \<not> outs s' < 27)", OF _ assms])
  fix f ps hs uo rnd s r
  assume IH: "\<And>ps hs uo rnd s r. f ps hs uo rnd s = Some r \<Longrightarrow>
      \<exists>n. loop_upto ps hs uo rnd n s = r \<and> (\<forall>s'. r = Inr s' \<longrightarrow> \<not> outs s' < 27)"
    and eq: "(if outs s < 27
      then case loop_body ps hs uo rnd s of Inl err \<Rightarrow> Some (Inl err)
           | Inr s' \<Rightarrow> f ps hs uo rnd s'
      else Some (Inr s)) = Some r"
  show "\<exists>n. loop_upto ps hs uo rnd n s = r \<and> (\<forall>s'. r = Inr s' \<longrightarrow> \<not> outs s' < 27)"
  proof (cases "outs s < 27")
    case False
    with eq have "r = Inr s" by simp
    with False have "loop_upto ps hs uo rnd 0 s = r \<and> (\<forall>s'. r = Inr s' \<longrightarrow> \<not> outs s' < 27)"
      by simp
    then show ?thesis by blast
  next
    case True
    show ?thesis
    proof (cases "loop_body ps hs uo rnd s")
      case (Inl e)
      with True eq have "r = Inl e" by simp
      with True Inl have "loop_upto ps hs uo rnd (Suc 0) s = r \<and>
          (\<forall>s'. r = Inr s' \<longrightarrow> \<not> outs s' < 27)" by simp
      then show ?thesis by blast
    next
      case (Inr s1)
      with True eq have "f ps hs uo rnd s1 = Some r" by simp
      from IH [OF this] obtain n where
        "loop_upto ps hs uo rnd n s1 = r \<and> (\<forall>s'. r = Inr s' \<longrightarrow> \<not> outs s' < 27)" by blast
      with True Inr have "loop_upto ps hs uo rnd (Suc n) s = r \<and>
          (\<forall>s'. r = Inr s' \<longrightarrow> \<not> outs s' < 27)" by simp
      then show ?thesis by blast
    qed
  qed
qed

lemma loop_upto_add:
  "loop_upto ps hs uo rnd (k + d) s =
     (case loop_upto ps hs uo rnd k s of
        Inl err \<Rightarrow> Inl err
      | Inr u \<Rightarrow> loop_upto ps hs uo rnd d u)"
proof (induction k arbitrary: s)
  case 0
  show ?case by simp
next
  case (Suc k)
  show ?case
  proof (cases "outs s < 27")
    case True
    then show ?thesis by (simp add: Suc.IH split: sum.splits)
  next
    case False
    then have "loop_upto ps hs uo rnd d s = Inr s" by (cases d) auto
    with False show ?thesis by simp
  qed
qed

subsection \<open>Invariants of a game\<close>

lemma loop_upto_invariant:
  assumes ok: "rosters_ok ps hs"
    and step: "\<And>s s'. I s \<Longrightarrow> current_pitcher s \<in> {1, 2, 3} \<Longrightarrow> outs s < 27 \<Longrightarrow>
                 loop_body ps hs uo rnd s = Inr s' \<Longrightarrow> I s'"
    and init: "I s" "current_pitcher s \<in> {1, 2, 3}"
  shows "\<exists>t. loop_upto ps hs uo rnd n s = Inr t \<and> I t \<and> current_pitcher t \<in> {1, 2, 3}"
  using init
proof (induction n arbitrary: s)
  case 0
  then show ?case by simp
next
  case (Suc n)
  show ?case
  proof (cases "outs s < 27")
    case False
    with Suc.prems show ?thesis by simp
  next
    case True
    from loop_body_Inr [OF ok Suc.prems(2), of uo rnd] obtain s1 where
      s1: "loop_body ps hs uo rnd s = Inr s1"
      and cp1: "(current_pitcher s1, outs_at_pitching_change s1) =
              change_pitchers uo (outs s) (Suc (total_plate_apps s)) (current_pitcher s)
                (outs_at_pitching_change s)"
      by blast
    have "fst (change_pitchers uo (outs s) (Suc (total_plate_apps s)) (current_pitcher s)
                (outs_at_pitching_change s)) \<in> {1, 2, 3}"
      using Suc.prems(2) by (rule change_pitchers_role)
    with cp1 have r: "current_pitcher s1 \<in> {1, 2, 3}" by (metis fst_conv)
    have "I s1" using step [OF Suc.prems(1) Suc.prems(2) True s1] .
    from Suc.IH [OF this r] True s1 show ?thesis by simp
  qed
qed

lemma initial_role: "current_pitcher (initial_state uo c) \<in> {1, 2, 3}"
  by (simp add: initial_state_def)

lemma loop_upto_counters:
  assumes ok: "rosters_ok ps hs"
  shows "\<exists>t. loop_upto ps hs uo rnd n (initial_state uo c) = Inr t \<and> counters_ok c t \<and>
           current_pitcher t \<in> {1, 2, 3}"
proof (rule loop_upto_invariant [OF ok _ _ initial_role])
  show "counters_ok c (initial_state uo c)"
    by (simp add: counters_ok_def initial_state_def)
next
  fix s s'
  assume "counters_ok c s" "current_pitcher s \<in> {1, 2, 3}" "outs s < 27"
    "loop_body ps hs uo rnd s = Inr s'"
  with loop_body_Inr [OF ok \<open>current_pitcher s \<in> {1, 2, 3}\<close>, of uo rnd]
  show "counters_ok c s'" by (auto simp: counters_ok_def)
qed

lemma loop_upto_plate_apps:
  "loop_upto ps hs uo rnd n s = Inr t \<Longrightarrow> rosters_ok ps hs \<Longrightarrow> current_pitcher s \<in> {1, 2, 3} \<Longrightarrow>
     total_plate_apps t \<le> total_plate_apps s + n \<and>
     (total_plate_apps t < total_plate_apps s + n \<longrightarrow> \<not> outs t < 27) \<and>
     outs s \<le> outs t"
proof (induction n arbitrary: s)
  case 0
  then show ?case by simp
next
  case (Suc n)
  show ?case
  proof (cases "outs s < 27")
    case False
    with Suc.prems show ?thesis by auto
  next
    case True
    from loop_body_Inr [OF Suc.prems(2,3), of uo rnd] obtain s1 where
      s1: "loop_body ps hs uo rnd s = Inr s1"
      and f: "total_plate_apps s1 = Suc (total_plate_apps s)"
        "outs s1 = outs s \<or> outs s1 = Suc (outs s)"
      and cp1: "(current_pitcher s1, outs_at_pitching_change s1) =
              change_pitchers uo (outs s) (Suc (total_plate_apps s)) (current_pitcher s)
                (outs_at_pitching_change s)"
      by blast
    have "fst (change_pitchers uo (outs s) (Suc (total_plate_apps s)) (current_pitcher s)
                (outs_at_pitching_change s)) \<in> {1, 2, 3}"
      using Suc.prems(3) by (rule change_pitchers_role)
    with cp1 have r: "current_pitcher s1 \<in> {1, 2, 3}" by (metis fst_conv)
    have "loop_upto ps hs uo rnd n s1 = Inr t" using Suc.prems(1) True s1 by simp
    from Suc.IH [OF this Suc.prems(2) r] f show ?thesis by auto
  qed
qed

lemma state_before_plate_app:
  assumes ok: "rosters_ok ps hs"
    and t: "loop_upto ps hs uo rnd m (initial_state uo c) = Inr t" and o: "outs t < 27"
  shows "total_plate_apps t = m"
  using loop_upto_plate_apps [OF t ok initial_role] o by (simp add: initial_state_def)

lemma outs_monotone:
  assumes ok: "rosters_ok ps hs" and km: "k \<le> m"
    and u: "loop_upto ps hs uo rnd k (initial_state uo c) = Inr u"
    and t: "loop_upto ps hs uo rnd m (initial_state uo c) = Inr t"
  shows "outs u \<le> outs t"
proof -
  from km obtain d where m: "m = k + d" by (auto simp: le_iff_add)
  have ut: "loop_upto ps hs uo rnd d u = Inr t"
    using t u by (simp add: m loop_upto_add)
  obtain u' where "loop_upto ps hs uo rnd k (initial_state uo c) = Inr u'"
    "current_pitcher u' \<in> {1, 2, 3}"
    using loop_upto_counters [OF ok, of uo rnd k c] by blast
  with u have "current_pitcher u \<in> {1, 2, 3}" by simp
  from loop_upto_plate_apps [OF ut ok this] show ?thesis by simp
qed

lemma terminal_state_of_run:
  "rosters_ok ps hs \<Longrightarrow>
     (\<forall>r. sim_loop ps hs uo rnd (initial_state uo c) = Some r \<longrightarrow>
        (\<exists>s. r = Inr s \<and> outs s = 27 \<and> 27 \<le> total_plate_apps s)) \<and>
     ((\<exists>r. sim_loop ps hs uo rnd (initial_state uo c) = Some r) \<longleftrightarrow>
      (\<exists>n s. loop_upto ps hs uo rnd n (initial_state uo c) = Inr s \<and> outs s = 27))"
proof -
  assume ok: "rosters_ok ps hs"
  let ?init = "initial_state uo c"
  have a: "\<exists>s. r = Inr s \<and> outs s = 27 \<and> 27 \<le> total_plate_apps s"
    if "sim_loop ps hs uo rnd ?init = Some r" for r
  proof -
    from sim_loop_upto_ex [OF that] obtain n where
      n: "loop_upto ps hs uo rnd n ?init = r" "\<forall>s'. r = Inr s' \<longrightarrow> \<not> outs s' < 27" by blast
    from loop_upto_counters [OF ok, of uo rnd n c] obtain t where
      "loop_upto ps hs uo rnd n ?init = Inr t" "counters_ok c t" by blast
    with n show ?thesis by (auto simp: counters_ok_def)
  qed
  have b: "\<exists>r. sim_loop ps hs uo rnd ?init = Some r"
    if "loop_upto ps hs uo rnd n ?init = Inr s" "outs s = 27" for n s
    using sim_loop_of_upto [OF that(1)] that(2) by simp
  have c: "\<exists>n s. loop_upto ps hs uo rnd n ?init = Inr s \<and> outs s = 27"
    if "sim_loop ps hs uo rnd ?init = Some r" for r
  proof -
    from a [OF that] obtain s where s: "r = Inr s" "outs s = 27" by blast
    from sim_loop_upto_ex [OF that] s show ?thesis by blast
  qed
  show ?thesis using a b c by blast
qed

subsection \<open>The opener-first branch\<close>

lemma opener_step:
  assumes ok: "rosters_ok ps hs" and inv: "opener_inv s" and cp: "current_pitcher s \<in> {1, 2, 3}"
    and body: "loop_body ps hs True rnd s = Inr s'"
  shows "opener_inv s' \<and>
         current_pitcher s' =
           (if outs s < 3 then 1 else if Suc (total_plate_apps s) \<le> 27 then 2 else 3)"
proof -
  from loop_body_Inr [OF ok cp, of True rnd] body have
    f: "total_plate_apps s' = Suc (total_plate_apps s)"
       "outs s' = outs s \<or> outs s' = Suc (outs s)"
       "(current_pitcher s', outs_at_pitching_change s') =
              change_pitchers True (outs s) (Suc (total_plate_apps s)) (current_pitcher s)
                (outs_at_pitching_change s)"
    by auto
  from f(3) have cp': "current_pitcher s' =
      (let p1 = (if outs s = 3 \<and> current_pitcher s = 1 then 2 else current_pitcher s)
       in if Suc (total_plate_apps s) > 27 \<and> p1 = 2 then 3 else p1)"
    by (simp add: change_pitchers_def Let_def)
  show ?thesis
    using inv cp f(1,2) unfolding cp' opener_inv_def Let_def
    by (auto split: if_splits)
qed

lemma opener_inv_reached:
  assumes ok: "rosters_ok ps hs"
    and t: "loop_upto ps hs True rnd n (initial_state True c) = Inr t"
  shows "opener_inv t \<and> current_pitcher t \<in> {1, 2, 3}"
proof -
  have "\<exists>t. loop_upto ps hs True rnd n (initial_state True c) = Inr t \<and> opener_inv t \<and>
           current_pitcher t \<in> {1, 2, 3}"
  proof (rule loop_upto_invariant [OF ok _ _ initial_role])
    show "opener_inv (initial_state True c)"
      by (simp add: opener_inv_def initial_state_def)
  next
    fix s s'
    assume "opener_inv s" "current_pitcher s \<in> {1, 2, 3}" "outs s < 27"
      "loop_body ps hs True rnd s = Inr s'"
    then show "opener_inv s'" using opener_step [OF ok] by blast
  qed
  with t show ?thesis by simp
qed

lemma opener_rotation_step:
  assumes ok: "rosters_ok ps hs"
    and t: "loop_upto ps hs True rnd m (initial_state True c) = Inr t" and o: "outs t < 27"
  shows "\<exists>t'. loop_upto ps hs True rnd (Suc m) (initial_state True c) = Inr t' \<and>
           total_plate_apps t' = Suc m \<and>
           current_pitcher t' = (if outs t < 3 then 1 else if Suc m \<le> 27 then 2 else 3) \<and>
           (\<forall>k u u'. k \<le> m \<and> loop_upto ps hs True rnd k (initial_state True c) = Inr u \<and>
                loop_upto ps hs True rnd (Suc k) (initial_state True c) = Inr u' \<and>
                current_pitcher u' \<noteq> 1 \<longrightarrow> current_pitcher t' \<noteq> 1)"
proof -
  let ?init = "initial_state True c"
  have step: "\<exists>u'. loop_upto ps hs True rnd (Suc k) ?init = Inr u' \<and>
                total_plate_apps u' = Suc k \<and>
                current_pitcher u' = (if outs u < 3 then 1 else if Suc k \<le> 27 then 2 else 3)"
    if u: "loop_upto ps hs True rnd k ?init = Inr u" and ou: "outs u < 27" for k u
  proof -
    have inv: "opener_inv u" "current_pitcher u \<in> {1, 2, 3}"
      using opener_inv_reached [OF ok u] by auto
    have k: "total_plate_apps u = k" using state_before_plate_app [OF ok u ou] .
    obtain u' where u': "loop_body ps hs True rnd u = Inr u'"
      "total_plate_apps u' = Suc (total_plate_apps u)"
      using loop_body_Inr [OF ok inv(2), of True rnd] by blast
    have "loop_upto ps hs True rnd (Suc k) ?init = Inr u'"
      using u ou u'(1) by (subst loop_upto_back) simp
    with opener_step [OF ok inv u'(1)] u'(2) k show ?thesis by simp
  qed
  from step [OF t o] obtain t' where t': "loop_upto ps hs True rnd (Suc m) ?init = Inr t'"
    "total_plate_apps t' = Suc m"
    "current_pitcher t' = (if outs t < 3 then 1 else if Suc m \<le> 27 then 2 else 3)" by blast
  have "current_pitcher t' \<noteq> 1"
    if "k \<le> m" and u: "loop_upto ps hs True rnd k ?init = Inr u"
      and u': "loop_upto ps hs True rnd (Suc k) ?init = Inr u'" and ne: "current_pitcher u' \<noteq> 1"
    for k u u'
  proof -
    have le: "outs u \<le> outs t" using outs_monotone [OF ok \<open>k \<le> m\<close> u t] .
    with o have "outs u < 27" by simp
    from step [OF u this] u' ne have "\<not> outs u < 3" by (auto split: if_splits)
    with le t'(3) show ?thesis by simp
  qed
  with t' show ?thesis by blast
qed

subsection \<open>The starter-first branch\<close>

lemma starter_step:
  assumes ok: "rosters_ok ps hs" and inv: "starter_inv s" and cp: "current_pitcher s \<in> {1, 2, 3}"
    and body: "loop_body ps hs False rnd s = Inr s'"
  shows "starter_inv s' \<and>
         outs_at_pitching_change s' =
           (if total_plate_apps s = 24 then outs s else outs_at_pitching_change s) \<and>
         current_pitcher s' =
           (if Suc (total_plate_apps s) \<le> 24 then 2
            else if outs s < outs_at_pitching_change s' + 3 then 1 else 3)"
proof -
  from loop_body_Inr [OF ok cp, of False rnd] body have
    f: "total_plate_apps s' = Suc (total_plate_apps s)"
       "outs s' = outs s \<or> outs s' = Suc (outs s)"
       "(current_pitcher s', outs_at_pitching_change s') =
              change_pitchers False (outs s) (Suc (total_plate_apps s)) (current_pitcher s)
                (outs_at_pitching_change s)"
    by auto
  show ?thesis
  proof (cases "total_plate_apps s < 24")
    case True
    with inv have "current_pitcher s = 2" by (simp add: starter_inv_def)
    with True f show ?thesis
      by (auto simp: change_pitchers_def starter_inv_def)
  next
    case False
    show ?thesis
    proof (cases "total_plate_apps s = 24")
      case True
      with inv have "current_pitcher s = 2" by (simp add: starter_inv_def)
      with True f show ?thesis
        by (auto simp: change_pitchers_def starter_inv_def)
    next
      case ne: False
      with False have gt: "24 < total_plate_apps s" by simp
      with inv have c: "current_pitcher s = 1 \<or> current_pitcher s = 3"
        "current_pitcher s = 1 \<longrightarrow> outs s \<le> outs_at_pitching_change s + 3"
        "current_pitcher s = 3 \<longrightarrow> outs_at_pitching_change s + 3 \<le> outs s"
        by (auto simp: starter_inv_def)
      from c(1) show ?thesis
      proof
        assume one: "current_pitcher s = 1"
        with gt f c(2) show ?thesis
          by (auto simp: change_pitchers_def starter_inv_def split: if_splits)
      next
        assume three: "current_pitcher s = 3"
        with gt f c(3) show ?thesis
          by (auto simp: change_pitchers_def starter_inv_def split: if_splits)
      qed
    qed
  qed
qed

lemma starter_inv_reached:
  assumes ok: "rosters_ok ps hs"
    and t: "loop_upto ps hs False rnd n (initial_state False c) = Inr t"
  shows "starter_inv t \<and> current_pitcher t \<in> {1, 2, 3}"
proof -
  have "\<exists>t. loop_upto ps hs False rnd n (initial_state False c) = Inr t \<and> starter_inv t \<and>
           current_pitcher t \<in> {1, 2, 3}"
  proof (rule loop_upto_invariant [OF ok _ _ initial_role])
    show "starter_inv (initial_state False c)"
      by (simp add: starter_inv_def initial_state_def)
  next
    fix s s'
    assume "starter_inv s" "current_pitcher s \<in> {1, 2, 3}" "outs s < 27"
      "loop_body ps hs False rnd s = Inr s'"
    then show "starter_inv s'" using starter_step [OF ok] by blast
  qed
  with t show ?thesis by simp
qed

lemma starter_marker:
  assumes ok: "rosters_ok ps hs"
    and t24: "loop_upto ps hs False rnd 24 (initial_state False c) = Inr t24"
    and t: "loop_upto ps hs False rnd n (initial_state False c) = Inr t"
    and gt: "24 < total_plate_apps t"
  shows "outs_at_pitching_change t = outs t24"
  using t gt
proof (induction n arbitrary: t)
  case 0
  then show ?case by (auto simp: initial_state_def)
next
  case (Suc n)
  let ?init = "initial_state False c"
  obtain u where u: "loop_upto ps hs False rnd n ?init = Inr u"
    using loop_upto_counters [OF ok, of False rnd n c] by blast
  have inv: "starter_inv u" "current_pitcher u \<in> {1, 2, 3}"
    using starter_inv_reached [OF ok u] by auto
  show ?case
  proof (cases "outs u < 27")
    case False
    with u Suc.prems(1) have "t = u" by (subst (asm) loop_upto_back) simp
    with Suc.IH [OF u] Suc.prems(2) show ?thesis by simp
  next
    case True
    with u Suc.prems(1) have body: "loop_body ps hs False rnd u = Inr t"
      by (subst (asm) loop_upto_back) simp
    have n: "total_plate_apps u = n" using state_before_plate_app [OF ok u True] .
    from starter_step [OF ok inv body] have
      m: "outs_at_pitching_change t =
           (if total_plate_apps u = 24 then outs u else outs_at_pitching_change u)" by simp
    from loop_body_Inr [OF ok inv(2), of False rnd] body
    have tp: "total_plate_apps t = Suc (total_plate_apps u)" by auto
    show ?thesis
    proof (cases "total_plate_apps u = 24")
      case True
      with n u t24 have "u = t24" by simp
      with m True show ?thesis by simp
    next
      case False
      with tp Suc.prems(2) have "24 < total_plate_apps u" by simp
      from Suc.IH [OF u this] m False show ?thesis by simp
    qed
  qed
qed

lemma starter_rotation_step:
  assumes ok: "rosters_ok ps hs"
    and t24: "loop_upto ps hs False rnd 24 (initial_state False c) = Inr t24"
    and t: "loop_upto ps hs False rnd m (initial_state False c) = Inr t" and o: "outs t < 27"
  shows "\<exists>t'. loop_upto ps hs False rnd (Suc m) (initial_state False c) = Inr t' \<and>
           total_plate_apps t' = Suc m \<and>
           current_pitcher t' =
             (if Suc m \<le> 24 then 2 else if outs t < outs t24 + 3 then 1 else 3) \<and>
           (24 < Suc m \<longrightarrow> outs_at_pitching_change t' = outs t24)"
proof -
  let ?init = "initial_state False c"
  have inv: "starter_inv t" "current_pitcher t \<in> {1, 2, 3}"
    using starter_inv_reached [OF ok t] by auto
  have m: "total_plate_apps t = m" using state_before_plate_app [OF ok t o] .
  obtain t' where t': "loop_body ps hs False rnd t = Inr t'"
    "total_plate_apps t' = Suc (total_plate_apps t)"
    using loop_body_Inr [OF ok inv(2), of False rnd] by blast
  have up: "loop_upto ps hs False rnd (Suc m) ?init = Inr t'"
    using t o t'(1) by (subst loop_upto_back) simp
  have mk: "outs_at_pitching_change t' = outs t24" if "24 < Suc m"
    using starter_marker [OF ok t24 up] that t'(2) m by simp
  from starter_step [OF ok inv t'(1)] have
    "current_pitcher t' =
           (if Suc (total_plate_apps t) \<le> 24 then 2
            else if outs t < outs_at_pitching_change t' + 3 then 1 else 3)" by simp
  with mk m have "current_pitcher t' =
             (if Suc m \<le> 24 then 2 else if outs t < outs t24 + 3 then 1 else 3)"
    by auto
  with up t'(2) m mk show ?thesis by auto
qed

subsection \<open>The draw over nine categories as a decision tree\<close>

lemma bisect_right_0_8:
  "bisect_right a x 0 8 =
     (if x < a ! 4 then
        (if x < a ! 2 then (if x < a ! 1 then (if x < a ! 0 then 0 else 1) else 2)
         else (if x < a ! 3 then 3 else 4))
      else
        (if x < a ! 6 then (if x < a ! 5 then 5 else 6)
         else (if x < a ! 7 then 7 else 8)))"
proof -
  have stop: "bisect_right a x n m = n" if "m \<le> n" for n m
    using that by (subst bisect_right.simps) simp
  have b01: "bisect_right a x 0 (Suc 0) = (if x < a ! 0 then 0 else 1)"
    by (subst bisect_right.simps) (simp add: stop)
  have b02: "bisect_right a x 0 2 = (if x < a ! 1 then (if x < a ! 0 then 0 else 1) else 2)"
    by (subst bisect_right.simps) (simp add: stop b01)
  have b34: "bisect_right a x 3 4 = (if x < a ! 3 then 3 else 4)"
    by (subst bisect_right.simps) (simp add: stop)
  have b04: "bisect_right a x 0 4 =
      (if x < a ! 2 then (if x < a ! 1 then (if x < a ! 0 then 0 else 1) else 2)
         else (if x < a ! 3 then 3 else 4))"
    by (subst bisect_right.simps) (simp add: b02 b34)
  have b56: "bisect_right a x 5 6 = (if x < a ! 5 then 5 else 6)"
    by (subst bisect_right.simps) (simp add: stop)
  have b78: "bisect_right a x 7 8 = (if x < a ! 7 then 7 else 8)"
    by (subst bisect_right.simps) (simp add: stop)
  have b58: "bisect_right a x 5 8 =
      (if x < a ! 6 then (if x < a ! 5 then 5 else 6)
         else (if x < a ! 7 then 7 else 8))"
    by (subst bisect_right.simps) (simp add: b56 b78)
  show ?thesis
    by (subst bisect_right.simps) (simp add: b04 b58)
qed

lemma sim_plate_app_tree:
  assumes "log_args_positive hitter" "log_args_positive pitcher"
  shows "sim_plate_app hitter pitcher r =
     Inr (let c0 = k_pct' hitter pitcher;
              c1 = c0 + bb_pct' hitter pitcher;
              c2 = c1 + single_pct' hitter pitcher;
              c3 = c2 + double_pct' hitter pitcher;
              c4 = c3 + triple_pct' hitter pitcher;
              c5 = c4 + hr_pct' hitter pitcher;
              c6 = c5 + hbp_pct' hitter pitcher;
              c7 = c6 + e_pct' hitter pitcher
          in if r < c4 then
               (if r < c2 then (if r < c1 then (if r < c0 then K else BB) else B1)
                else (if r < c3 then B2 else B3))
             else
               (if r < c6 then (if r < c5 then HR else HBP)
                else (if r < c7 then E else OIP)),
          exp_runs_created hitter pitcher)"
proof -
  let ?ps = "probabilities hitter pitcher"
  let ?cum = "accumulate (map snd ?ps)"
  have l: "length ?ps = 9" by (simp add: probabilities_def)
  then have ne: "map snd ?ps \<noteq> []" by auto
  have tot: "last ?cum = 1"
    using last_accumulate [OF ne] by (simp add: probabilities_total)
  have ne': "?cum \<noteq> []"
    using length_accumulate [of "map snd ?ps"] l by auto
  have 1: "sim_plate_app hitter pitcher r =
      Inr (map fst ?ps ! bisect_right ?cum r 0 8, exp_runs_created hitter pitcher)"
    using assms l ne' tot
    by (simp add: sim_plate_app_def choices_def Let_def length_accumulate)
  have cum: "?cum = [k_pct' hitter pitcher,
      k_pct' hitter pitcher + bb_pct' hitter pitcher,
      k_pct' hitter pitcher + bb_pct' hitter pitcher + single_pct' hitter pitcher,
      k_pct' hitter pitcher + bb_pct' hitter pitcher + single_pct' hitter pitcher +
        double_pct' hitter pitcher,
      k_pct' hitter pitcher + bb_pct' hitter pitcher + single_pct' hitter pitcher +
        double_pct' hitter pitcher + triple_pct' hitter pitcher,
      k_pct' hitter pitcher + bb_pct' hitter pitcher + single_pct' hitter pitcher +
        double_pct' hitter pitcher + triple_pct' hitter pitcher + hr_pct' hitter pitcher,
      k_pct' hitter pitcher + bb_pct' hitter pitcher + single_pct' hitter pitcher +
        double_pct' hitter pitcher + triple_pct' hitter pitcher + hr_pct' hitter pitcher +
        hbp_pct' hitter pitcher,
      k_pct' hitter pitcher + bb_pct' hitter pitcher + single_pct' hitter pitcher +
        double_pct' hitter pitcher + triple_pct' hitter pitcher + hr_pct' hitter pitcher +
        hbp_pct' hitter pitcher + e_pct' hitter pitcher,
      k_pct' hitter pitcher + bb_pct' hitter pitcher + single_pct' hitter pitcher +
        double_pct' hitter pitcher + triple_pct' hitter pitcher + hr_pct' hitter pitcher +
        hbp_pct' hitter pitcher + e_pct' hitter pitcher + oip_pct' hitter pitcher]"
    by (simp add: probabilities_def accumulate_def)
  show ?thesis
    unfolding 1 bisect_right_0_8 cum
    by (simp add: probabilities_def Let_def)
qed

subsection \<open>Bounds on logarithms and powers\<close>

lemma exp_8_le: "exp (8::real) \<le> 6561"
proof -
  have "exp (8::real) = exp 1 ^ 8" using exp_of_nat_mult [of 8 "1::real"] by simp
  also have "\<dots> \<le> 3 ^ 8" by (intro power_mono exp_le) simp
  finally show ?thesis by simp
qed

lemma ln_tiny: "ln (0.0001::real) \<le> - 8"
proof -
  have "exp (- 8 :: real) = inverse (exp 8)" by (simp add: exp_minus)
  also have "\<dots> \<ge> inverse 6561" using exp_8_le by (intro le_imp_inverse_le) auto
  finally have "(0.0001::real) \<le> exp (- 8)" by simp
  then have "ln (0.0001::real) \<le> ln (exp (- 8))" by (subst ln_le_cancel_iff) auto
  then show ?thesis by simp
qed

lemma ln_99: "- 1 \<le> ln (0.99::real)"
proof -
  have "2 \<le> exp (1::real)" using exp_ge_add_one_self [of "1::real"] by simp
  then have "inverse (exp (1::real)) \<le> inverse 2" by (intro le_imp_inverse_le) auto
  then have "exp (- 1 :: real) \<le> 0.99" by (simp add: exp_minus)
  then show ?thesis by (subst ln_ge_iff) auto
qed

lemma ln_fifth: "ln (0.2::real) < - 1"
proof -
  have "inverse 3 \<le> inverse (exp (1::real))" using exp_le by (intro le_imp_inverse_le) auto
  then have "(0.2::real) < exp (- 1)" by (simp add: exp_minus)
  then have "ln (0.2::real) < ln (exp (- 1))" by (subst ln_less_cancel_iff) auto
  then show ?thesis by simp
qed

lemma exp_1_gt: "2.71828 < exp (1::real)"
proof -
  have "(\<Sum>n<10. inverse (fact n) * (1::real) ^ n) \<le> (\<Sum>n. inverse (fact n) * (1::real) ^ n)"
    by (intro sum_le_suminf summable_exp) auto
  also have "\<dots> = exp (1::real)"
    by (simp add: exp_def)
  finally have "(\<Sum>n<10. inverse (fact n) * (1::real) ^ n) \<le> exp 1" .
  moreover have "2.71828 < (\<Sum>n<10. inverse (fact n) * (1::real) ^ n)"
    by (simp add: eval_nat_numeral fact_numeral)
  ultimately show ?thesis by simp
qed

lemma powr_small: "x \<le> - 5 \<Longrightarrow> (2.71828::real) powr x \<le> 0.0068"
proof -
  assume "x \<le> - 5"
  then have "(2.71828::real) powr x \<le> 2.71828 powr (- 5)" by (intro powr_mono) auto
  also have "\<dots> = inverse (2.71828 ^ 5)"
    by (simp add: powr_minus)
  also have "\<dots> \<le> 0.0068" by (simp add: field_simps)
  finally show ?thesis .
qed

lemma powr_big: "1 \<le> x \<Longrightarrow> 2 \<le> (2.71828::real) powr x"
proof -
  assume "1 \<le> x"
  then have "(2.71828::real) powr 1 \<le> 2.71828 powr x" by (intro powr_mono) auto
  then show ?thesis by simp
qed

subsection \<open>Draws with a known outcome\<close>

lemma zero_draw_strikeout:
  assumes "log_args_positive hitter" "log_args_positive pitcher"
    and d: "0 \<le> double_pct' hitter pitcher"
  shows "sim_plate_app hitter pitcher 0 = Inr (K, exp_runs_created hitter pitcher)"
proof -
  have pos: "0 < k_pct' hitter pitcher" "0 < bb_pct' hitter pitcher"
    "0 < single_pct' hitter pitcher" "0 < triple_pct' hitter pitcher"
    by (simp_all add: k_pct'_def bb_pct'_def single_pct'_def triple_pct'_def)
  show ?thesis
    unfolding sim_plate_app_tree [OF assms(1,2)] Let_def
    using pos d by simp
qed

lemma home_run_profile_positive: "log_args_positive (home_run_profile n)"
  by (simp add: log_args_positive_def home_run_profile_def)

lemma log_linear_small:
  assumes "ln x \<le> - 8" "ln y \<le> - 8" "0 \<le> a" "0 \<le> b" "c \<le> 8 * (a + b) - 5"
  shows "(2.71828::real) powr (a * ln x + b * ln y + c) \<le> 0.0068"
proof -
  have "a * ln x \<le> a * (- 8)" "b * ln y \<le> b * (- 8)"
    by (rule mult_left_mono; fact)+
  with assms(5) have "a * ln x + b * ln y + c \<le> - 5" by (simp add: algebra_simps)
  then show ?thesis by (rule powr_small)
qed

lemma log_linear_big:
  assumes "- 1 \<le> ln x" "- 1 \<le> ln y" "0 \<le> a" "0 \<le> b" "a + b + 1 \<le> c"
  shows "2 \<le> (2.71828::real) powr (a * ln x + b * ln y + c)"
proof -
  have "a * (- 1) \<le> a * ln x" "b * (- 1) \<le> b * ln y"
    by (rule mult_left_mono; fact)+
  with assms(5) have "1 \<le> a * ln x + b * ln y + c" by (simp add: algebra_simps)
  then show ?thesis by (rule powr_big)
qed

lemma home_run_draw:
  assumes r: "0 \<le> r" "r < 1"
  shows "sim_plate_app (home_run_profile i) (home_run_profile j) r =
           Inr (HR, exp_runs_created (home_run_profile i) (home_run_profile j))"
proof -
  let ?h = "home_run_profile i" and ?p = "home_run_profile j"
  have f: "k_pct (home_run_profile n) = 0.0001" "bb_pct (home_run_profile n) = 0.0001"
    "single_pct (home_run_profile n) = 0.0001" "triple_pct (home_run_profile n) = 0.0001"
    "hr_pct (home_run_profile n) = 0.99" for n
    by (simp_all add: home_run_profile_def)
  have k: "0 < k_pct' ?h ?p" "k_pct' ?h ?p \<le> 0.0068"
    unfolding k_pct'_def f by (simp, rule log_linear_small [OF ln_tiny ln_tiny]) simp_all
  have bb: "0 < bb_pct' ?h ?p" "bb_pct' ?h ?p \<le> 0.0068"
    unfolding bb_pct'_def f by (simp, rule log_linear_small [OF ln_tiny ln_tiny]) simp_all
  have s: "0 < single_pct' ?h ?p" "single_pct' ?h ?p \<le> 0.0068"
    unfolding single_pct'_def f by (simp, rule log_linear_small [OF ln_tiny ln_tiny]) simp_all
  have t: "0 < triple_pct' ?h ?p" "triple_pct' ?h ?p \<le> 0.0068"
    unfolding triple_pct'_def f by (simp, rule log_linear_small [OF ln_tiny ln_tiny]) simp_all
  have d: "double_pct' ?h ?p = - 0.039492161"
    by (simp add: double_pct'_def home_run_profile_def)
  have hr: "2 \<le> hr_pct' ?h ?p"
    unfolding hr_pct'_def f by (rule log_linear_big [OF ln_99 ln_99]) simp_all
  have hbp: "0 < hbp_pct' ?h ?p"
    by (simp add: hbp_pct'_def)
  show ?thesis
    unfolding sim_plate_app_tree [OF home_run_profile_positive home_run_profile_positive] Let_def
    using k bb s t d hr hbp r by simp
qed

subsection \<open>A game in which every draw is a home run\<close>

lemma loop_body_outcome:
  assumes ok: "rosters_ok ps hs" and cp: "current_pitcher s \<in> {1, 2, 3}"
    and body: "loop_body ps hs uo rnd s = Inr s'"
  shows "\<exists>j<3. \<exists>oc.
           sim_plate_app (hs ! (position_in_order s mod 9)) (ps ! j) (rnd (random_calls s)) =
             Inr (oc, exp_runs_created (hs ! (position_in_order s mod 9)) (ps ! j)) \<and>
           outs s' = (if oc \<in> {K, OIP} then Suc (outs s) else outs s) \<and>
           sim_rc_per_hitter_per_inning s' =
             grid_set (sim_rc_per_hitter_per_inning s) (outs s div 3)
               (Suc (position_in_order s mod 9))
               (sim_rc_per_hitter_per_inning s (outs s div 3) (Suc (position_in_order s mod 9)) +
                exp_runs_created (hs ! (position_in_order s mod 9)) (ps ! j))"
proof -
  obtain role marker where cm:
    "change_pitchers uo (outs s) (Suc (total_plate_apps s)) (current_pitcher s)
                (outs_at_pitching_change s) = (role, marker)"
    by (cases "change_pitchers uo (outs s) (Suc (total_plate_apps s)) (current_pitcher s)
                (outs_at_pitching_change s)") auto
  have "fst (change_pitchers uo (outs s) (Suc (total_plate_apps s)) (current_pitcher s)
                (outs_at_pitching_change s)) \<in> {1, 2, 3}"
    using cp by (rule change_pitchers_role)
  then have r3: "role - Suc 0 < 3" using cm by auto
  have "log_args_positive (hs ! (position_in_order s mod 9))"
    "log_args_positive (ps ! (role - Suc 0))"
    using ok r3 by (auto simp: rosters_ok_def)
  then obtain oc where oc: "sim_plate_app (hs ! (position_in_order s mod 9)) (ps ! (role - Suc 0))
      (rnd (random_calls s)) =
      Inr (oc, exp_runs_created (hs ! (position_in_order s mod 9)) (ps ! (role - Suc 0)))"
    using sim_plate_app_Inr by blast
  from body have "s' = \<lparr> sim_rc_per_hitter_per_inning =
                   grid_set (sim_rc_per_hitter_per_inning s) (outs s div 3)
                     (Suc (position_in_order s mod 9))
                     (sim_rc_per_hitter_per_inning s (outs s div 3)
                        (Suc (position_in_order s mod 9)) +
                      exp_runs_created (hs ! (position_in_order s mod 9)) (ps ! (role - Suc 0))),
                 sim_pa_per_hitter_per_inning =
                   grid_set (sim_pa_per_hitter_per_inning s) (outs s div 3)
                     (Suc (position_in_order s mod 9)) 1,
                 current_pitcher = role,
                 position_in_order = Suc (position_in_order s mod 9),
                 outs = (if oc \<in> {K, OIP} then Suc (outs s) else outs s),
                 total_plate_apps = Suc (total_plate_apps s),
                 outs_at_pitching_change = marker,
                 random_calls = Suc (random_calls s) \<rparr>"
    unfolding loop_body_explicit [where rnd = rnd, OF ok cp cm oc] by simp
  then have "outs s' = (if oc \<in> {K, OIP} then Suc (outs s) else outs s)"
    "sim_rc_per_hitter_per_inning s' =
             grid_set (sim_rc_per_hitter_per_inning s) (outs s div 3)
               (Suc (position_in_order s mod 9))
               (sim_rc_per_hitter_per_inning s (outs s div 3) (Suc (position_in_order s mod 9)) +
                exp_runs_created (hs ! (position_in_order s mod 9)) (ps ! (role - Suc 0)))"
    by simp_all
  with oc r3 show ?thesis by blast
qed

lemma home_run_rosters: "rosters_ok home_run_staff home_run_lineup"
  by (simp add: rosters_ok_def home_run_staff_def home_run_lineup_def less_Suc_eq
        numeral_3_eq_3 numeral_eq_Suc home_run_profile_positive all_conj_distrib nth_Cons')

lemma home_run_lineup_nth: "i < 9 \<Longrightarrow> \<exists>n. home_run_lineup ! i = home_run_profile n"
  by (auto simp: home_run_lineup_def less_Suc_eq numeral_eq_Suc nth_Cons')

lemma home_run_staff_nth: "j < 3 \<Longrightarrow> \<exists>n. home_run_staff ! j = home_run_profile n"
  by (auto simp: home_run_staff_def less_Suc_eq numeral_eq_Suc nth_Cons')

lemma home_run_game_no_outs:
  assumes rnd: "\<forall>n. 0 \<le> rnd n \<and> rnd n < 1"
  shows "\<exists>t. loop_upto home_run_staff home_run_lineup uo rnd n (initial_state uo c) = Inr t \<and>
           outs t = 0"
proof -
  have "\<exists>t. loop_upto home_run_staff home_run_lineup uo rnd n (initial_state uo c) = Inr t \<and>
           outs t = 0 \<and> current_pitcher t \<in> {1, 2, 3}"
  proof (rule loop_upto_invariant [OF home_run_rosters _ _ initial_role])
    show "outs (initial_state uo c) = 0" by (simp add: initial_state_def)
  next
    fix s s'
    assume s: "outs s = 0" "current_pitcher s \<in> {1, 2, 3}"
      and body: "loop_body home_run_staff home_run_lineup uo rnd s = Inr s'"
    from loop_body_outcome [OF home_run_rosters s(2) body] obtain j oc where
      j: "j < 3" and oc: "sim_plate_app (home_run_lineup ! (position_in_order s mod 9))
            (home_run_staff ! j) (rnd (random_calls s)) =
             Inr (oc, exp_runs_created (home_run_lineup ! (position_in_order s mod 9))
                   (home_run_staff ! j))"
      and o: "outs s' = (if oc \<in> {K, OIP} then Suc (outs s) else outs s)" by blast
    obtain a b where ab: "home_run_lineup ! (position_in_order s mod 9) = home_run_profile a"
      "home_run_staff ! j = home_run_profile b"
      using home_run_lineup_nth [of "position_in_order s mod 9"] home_run_staff_nth [OF j] by auto
    from oc rnd have "oc = HR" unfolding ab by (simp add: home_run_draw)
    with o s(1) show "outs s' = 0" by simp
  qed
  then show ?thesis by blast
qed

lemma home_run_game_diverges:
  assumes rnd: "\<forall>n. 0 \<le> rnd n \<and> rnd n < 1"
  shows "sim_game home_run_staff home_run_lineup uo rnd c = None"
proof -
  have "sim_loop home_run_staff home_run_lineup uo rnd (initial_state uo c) = None"
  proof (rule ccontr)
    assume "sim_loop home_run_staff home_run_lineup uo rnd (initial_state uo c) \<noteq> None"
    then obtain r where "sim_loop home_run_staff home_run_lineup uo rnd (initial_state uo c) = Some r"
      by auto
    from sim_loop_upto_ex [OF this] obtain n where
      n: "loop_upto home_run_staff home_run_lineup uo rnd n (initial_state uo c) = r"
         "\<forall>s'. r = Inr s' \<longrightarrow> \<not> outs s' < 27" by blast
    with home_run_game_no_outs [OF rnd, of uo n c] show False by auto
  qed
  then show ?thesis by (simp add: sim_game_def)
qed

subsection \<open>Totals of grids\<close>

lemma sum_fun_upd:
  fixes f :: "nat \<Rightarrow> real"
  assumes "finite A" "a \<in> A"
  shows "(\<Sum>x\<in>A. (f(a := v)) x) = (\<Sum>x\<in>A. f x) - f a + v"
proof -
  have "(\<Sum>x\<in>A. (f(a := v)) x) = v + (\<Sum>x\<in>A - {a}. (f(a := v)) x)"
    using sum.remove [OF assms, of "f(a := v)"] by simp
  also have "(\<Sum>x\<in>A - {a}. (f(a := v)) x) = (\<Sum>x\<in>A - {a}. f x)"
    by (rule sum.cong) auto
  also have "(\<Sum>x\<in>A. f x) = f a + (\<Sum>x\<in>A - {a}. f x)"
    using sum.remove [OF assms, of f] by simp
  then have "(\<Sum>x\<in>A - {a}. f x) = (\<Sum>x\<in>A. f x) - f a" by simp
  finally show ?thesis by simp
qed

lemma grand_total_grid_set:
  assumes "row < 9" "1 \<le> col" "col \<le> 9"
  shows "grand_total (grid_set g row col v) = grand_total g - g row col + v"
proof -
  let ?g' = "grid_set g row col v"
  have "grand_total ?g' = (\<Sum>c\<in>{1..9}. ?g' row c) + (\<Sum>r\<in>{..<9} - {row}. \<Sum>c\<in>{1..9}. ?g' r c)"
    unfolding grand_total_def using assms(1) by (subst sum.remove [of _ row]) auto
  also have "(\<Sum>r\<in>{..<9} - {row}. \<Sum>c\<in>{1..9}. ?g' r c) =
             (\<Sum>r\<in>{..<9} - {row}. \<Sum>c\<in>{1..9}. g r c)"
    by (rule sum.cong) (auto simp: grid_set_def)
  also have "(\<Sum>c\<in>{1..9}. ?g' row c) = (\<Sum>c\<in>{1..9}. g row c) - g row col + v"
    using sum_fun_upd [of "{1..9}" col "g row" v] assms(2,3) by (simp add: grid_set_def)
  also have "(\<Sum>c\<in>{1..9}. g row c) - g row col + v +
               (\<Sum>r\<in>{..<9} - {row}. \<Sum>c\<in>{1..9}. g r c) =
             grand_total g - g row col + v"
    unfolding grand_total_def using assms(1)
    by (subst (2) sum.remove [of _ row]) auto
  finally show ?thesis .
qed

lemma grand_total_zero: "grand_total zero_grid = 0"
  by (simp add: grand_total_def zero_grid_def)

lemma grand_total_add: "grand_total (grid_add g h) = grand_total g + grand_total h"
  by (simp add: grand_total_def grid_add_def sum.distrib)

lemma grand_total_div: "grand_total (grid_div g n) = grand_total g / real_of_int n"
  by (simp add: grand_total_def grid_div_def sum_divide_distrib)

subsection \<open>A game in which every draw is a strikeout\<close>

lemma strikeout_game:
  assumes ok: "rosters_ok ps hs"
    and d: "\<forall>i<9. \<forall>j<3. 0 \<le> double_pct' (hs ! i) (ps ! j)"
    and u: "\<forall>i<9. \<forall>j<3. exp_runs_created (hs ! i) (ps ! j) = exp_runs_created (hs ! i) (ps ! 0)"
  shows "\<exists>t. loop_upto ps hs uo zero_draws n (initial_state uo c) = Inr t \<and>
           strikeout_inv ps hs t \<and> current_pitcher t \<in> {1, 2, 3}"
proof (rule loop_upto_invariant [OF ok _ _ initial_role])
  show "strikeout_inv ps hs (initial_state uo c)"
    by (simp add: strikeout_inv_def initial_state_def grand_total_zero) (simp add: zero_grid_def)
next
  fix s s'
  assume inv: "strikeout_inv ps hs s" and cp: "current_pitcher s \<in> {1, 2, 3}"
    and o27: "outs s < 27"
    and body: "loop_body ps hs uo zero_draws s = Inr s'"
  let ?i = "position_in_order s mod 9"
  have i9: "?i < 9" by simp
  from loop_body_outcome [OF ok cp body] obtain j oc where
    j: "j < 3" and oc: "sim_plate_app (hs ! ?i) (ps ! j) (zero_draws (random_calls s)) =
             Inr (oc, exp_runs_created (hs ! ?i) (ps ! j))"
    and o: "outs s' = (if oc \<in> {K, OIP} then Suc (outs s) else outs s)"
    and rc: "sim_rc_per_hitter_per_inning s' =
             grid_set (sim_rc_per_hitter_per_inning s) (outs s div 3) (Suc ?i)
               (sim_rc_per_hitter_per_inning s (outs s div 3) (Suc ?i) +
                exp_runs_created (hs ! ?i) (ps ! j))"
    by blast
  from loop_body_Inr [OF ok cp, of uo zero_draws] body have
    f: "total_plate_apps s' = Suc (total_plate_apps s)"
       "position_in_order s' = Suc ?i" by auto
  have pos: "log_args_positive (hs ! ?i)" "log_args_positive (ps ! j)"
    using ok i9 j by (auto simp: rosters_ok_def)
  have "0 \<le> double_pct' (hs ! ?i) (ps ! j)" using d i9 j by blast
  from zero_draw_strikeout [OF pos this] oc have "oc = K" by (simp add: zero_draws_def)
  with o have o': "outs s' = Suc (outs s)" by simp
  have runs: "exp_runs_created (hs ! ?i) (ps ! j) = exp_runs_created (hs ! ?i) (ps ! 0)"
    using u i9 j by blast
  have i: "?i = total_plate_apps s mod 9" using inv by (simp add: strikeout_inv_def)
  have row: "outs s div 3 < 9" using o27 by simp
  have gt: "grand_total (sim_rc_per_hitter_per_inning s') =
      grand_total (sim_rc_per_hitter_per_inning s) + exp_runs_created (hs ! ?i) (ps ! 0)"
    unfolding rc runs using row by (subst grand_total_grid_set) auto
  have cell: "sim_rc_per_hitter_per_inning s' 0 1 =
      (if total_plate_apps s = 0 then exp_runs_created (hs ! 0) (ps ! 0)
       else sim_rc_per_hitter_per_inning s 0 1)"
  proof (cases "total_plate_apps s = 0")
    case True
    with inv have "outs s = 0" "?i = 0" "sim_rc_per_hitter_per_inning s 0 1 = 0"
      by (auto simp: strikeout_inv_def)
    with True show ?thesis unfolding rc runs by (simp add: grid_set_def)
  next
    case False
    have "\<not> (outs s div 3 = 0 \<and> Suc ?i = 1)"
    proof
      assume a: "outs s div 3 = 0 \<and> Suc ?i = 1"
      then have "outs s < 3" "total_plate_apps s mod 9 = 0" using i by auto
      moreover have "outs s = total_plate_apps s" using inv by (simp add: strikeout_inv_def)
      ultimately show False using False by auto
    qed
    then show ?thesis unfolding rc using False by (auto simp: grid_set_def)
  qed
  show "strikeout_inv ps hs s'"
    using inv unfolding strikeout_inv_def f o' gt cell i
    by (auto simp: mod_Suc_eq)
qed

lemma strikeout_game_27:
  assumes ok: "rosters_ok ps hs"
    and d: "\<forall>i<9. \<forall>j<3. 0 \<le> double_pct' (hs ! i) (ps ! j)"
    and u: "\<forall>i<9. \<forall>j<3. exp_runs_created (hs ! i) (ps ! j) = exp_runs_created (hs ! i) (ps ! 0)"
    and n: "n \<le> 27"
  shows "\<exists>t. loop_upto ps hs uo zero_draws n (initial_state uo c) = Inr t \<and>
           strikeout_inv ps hs t \<and> total_plate_apps t = n \<and> outs t = n \<and>
           random_calls t = c + n"
proof -
  from strikeout_game [OF ok d u, of uo n c] obtain t where
    t: "loop_upto ps hs uo zero_draws n (initial_state uo c) = Inr t" "strikeout_inv ps hs t"
    by blast
  from loop_upto_counters [OF ok, of uo zero_draws n c] t(1) have c: "counters_ok c t" by simp
  from loop_upto_plate_apps [OF t(1) ok initial_role] have
    p: "total_plate_apps t \<le> n" "total_plate_apps t < n \<longrightarrow> \<not> outs t < 27"
    by (simp_all add: initial_state_def)
  have eq: "outs t = total_plate_apps t" using t(2) by (simp add: strikeout_inv_def)
  have "total_plate_apps t = n" using p eq n by auto
  with t eq c show ?thesis by (auto simp: counters_ok_def)
qed

subsection \<open>The batch of games\<close>

lemma grand_total_foldl:
  "grand_total (foldl grid_add g gs) = grand_total g + (\<Sum>h\<leftarrow>gs. grand_total h)"
  by (induction gs arbitrary: g) (simp_all add: grand_total_add)

lemma games_loop_play_games:
  "games_loop ps hs uo rnd n (sum_rc, sum_pa, c) =
     (case play_games ps hs uo rnd n c of
        None \<Rightarrow> None
      | Some (Inl err) \<Rightarrow> Some (Inl err)
      | Some (Inr (games, c')) \<Rightarrow>
          Some (Inr (foldl grid_add sum_rc (map fst games),
                     foldl grid_add sum_pa (map snd games), c')))"
proof (induction n arbitrary: sum_rc sum_pa c)
  case 0
  show ?case by simp
next
  case (Suc n)
  show ?case
  proof (cases "sim_game ps hs uo rnd c")
    case None
    then show ?thesis by simp
  next
    case (Some r)
    show ?thesis
    proof (cases r)
      case (Inl e)
      with Some show ?thesis by simp
    next
      case (Inr g)
      obtain rc pa c' where g: "g = (rc, pa, c')" by (cases g) auto
      show ?thesis using Some Inr g
        by (simp add: Suc.IH split: option.splits sum.splits prod.splits)
    qed
  qed
qed

lemma simulation_refines:
  assumes "1 \<le> sample_size"
  shows "simulation ps hs uo sample_size rnd c = spec_simulation ps hs uo sample_size rnd c"
proof -
  have "sample_size \<noteq> 0" using assms by simp
  then show ?thesis
    by (simp add: simulation_def averaged_grids_def spec_simulation_def games_loop_play_games
          grand_total_div grand_total_foldl grand_total_zero o_def case_prod_unfold
          split: option.splits sum.splits prod.splits)
qed

subsection \<open>The league-average rosters\<close>

lemma staff_nth: "j < 3 \<Longrightarrow> \<exists>n. staff ! j = league_average n"
  by (auto simp: staff_def less_Suc_eq numeral_eq_Suc nth_Cons')

lemma staff_0: "staff ! 0 = league_average 1"
  by (simp add: staff_def)

lemma regular_positive:
  "log_args_positive (league_average n)" "log_args_positive (doubles_hitter n)"
  by (simp_all add: log_args_positive_def league_average_def doubles_hitter_def)

lemma regular_double:
  "0 \<le> double_pct' (league_average n) (league_average m)"
  "0 \<le> double_pct' (doubles_hitter n) (league_average m)"
  by (simp_all add: double_pct'_def league_average_def doubles_hitter_def)

lemma regular_pcts:
  "k_pct' h (league_average m) = k_pct' h (league_average 1)"
  "bb_pct' h (league_average m) = bb_pct' h (league_average 1)"
  "single_pct' h (league_average m) = single_pct' h (league_average 1)"
  "double_pct' h (league_average m) = double_pct' h (league_average 1)"
  "triple_pct' h (league_average m) = triple_pct' h (league_average 1)"
  "hr_pct' h (league_average m) = hr_pct' h (league_average 1)"
  "hbp_pct' h (league_average m) = hbp_pct' h (league_average 1)"
  by (simp_all add: k_pct'_def bb_pct'_def single_pct'_def
        double_pct'_def triple_pct'_def hr_pct'_def hbp_pct'_def league_average_def)

lemma regular_runs:
  "exp_runs_created h (league_average m) = exp_runs_created h (league_average 1)"
  unfolding exp_runs_created_def oip_pct'_def e_pct'_def regular_pcts [of h m] ..

lemma regular_lineup:
  assumes len: "length hs = 9"
    and reg: "\<forall>h\<in>set hs. \<exists>n. h = league_average n \<or> h = doubles_hitter n"
  shows "rosters_ok staff hs"
    and "\<forall>i<9. \<forall>j<3. 0 \<le> double_pct' (hs ! i) (staff ! j)"
    and "\<forall>i<9. \<forall>j<3. exp_runs_created (hs ! i) (staff ! j) = exp_runs_created (hs ! i) (staff ! 0)"
proof -
  have p: "log_args_positive (staff ! j)" if "j < 3" for j
    using staff_nth [OF that] regular_positive by auto
  have r: "\<exists>n. hs ! i = league_average n \<or> hs ! i = doubles_hitter n" if "i < 9" for i
    using reg that len by (simp add: nth_mem)
  have h: "log_args_positive (hs ! i)" if "i < 9" for i
    using r [OF that] regular_positive by auto
  show "rosters_ok staff hs"
    using len p h by (simp add: rosters_ok_def staff_def)
  show "\<forall>i<9. \<forall>j<3. 0 \<le> double_pct' (hs ! i) (staff ! j)"
  proof (intro allI impI)
    fix i j :: nat assume "i < 9" "j < 3"
    then obtain n m where "hs ! i = league_average n \<or> hs ! i = doubles_hitter n"
      "staff ! j = league_average m" using r staff_nth by blast
    then show "0 \<le> double_pct' (hs ! i) (staff ! j)" using regular_double by auto
  qed
  show "\<forall>i<9. \<forall>j<3. exp_runs_created (hs ! i) (staff ! j) = exp_runs_created (hs ! i) (staff ! 0)"
  proof (intro allI impI)
    fix i j :: nat assume "i < 9" "j < 3"
    then obtain m where "staff ! j = league_average m" using staff_nth by blast
    then show "exp_runs_created (hs ! i) (staff ! j) = exp_runs_created (hs ! i) (staff ! 0)"
      by (simp add: staff_0 regular_runs [of _ m])
  qed
qed

lemma lineup_regular:
  "length lineup = 9 \<and> (\<forall>h\<in>set lineup. \<exists>n. h = league_average n \<or> h = doubles_hitter n)"
  by (auto simp: lineup_def)

lemma lineup_a_regular:
  "length lineup_a = 9 \<and>
   (\<forall>h\<in>set lineup_a. \<exists>n. h = league_average n \<or> h = doubles_hitter n)"
  by (auto simp: lineup_a_def)

lemma lineup_b_regular:
  "length lineup_b = 9 \<and>
   (\<forall>h\<in>set lineup_b. \<exists>n. h = league_average n \<or> h = doubles_hitter n)"
  by (auto simp: lineup_b_def)

lemma regular_strikeout_game:
  assumes reg: "length hs = 9 \<and>
      (\<forall>h\<in>set hs. \<exists>n. h = league_average n \<or> h = doubles_hitter n)"
    and n: "n \<le> 27"
  shows "\<exists>t. loop_upto staff hs uo zero_draws n (initial_state uo c) = Inr t \<and>
           strikeout_inv staff hs t \<and> total_plate_apps t = n \<and> outs t = n \<and>
           random_calls t = c + n"
  using reg by (intro strikeout_game_27 regular_lineup n) auto

lemma regular_sim_game:
  assumes reg: "length hs = 9 \<and>
      (\<forall>h\<in>set hs. \<exists>n. h = league_average n \<or> h = doubles_hitter n)"
  shows "\<exists>rc pa. sim_game staff hs uo zero_draws c = Some (Inr (rc, pa, c + 27)) \<and>
           grand_total rc = (\<Sum>n<27. exp_runs_created (hs ! (n mod 9)) (league_average 1)) \<and>
           rc 0 1 = exp_runs_created (hs ! 0) (league_average 1)"
proof -
  from regular_strikeout_game [OF reg, of 27 uo c] obtain t where
    t: "loop_upto staff hs uo zero_draws 27 (initial_state uo c) = Inr t"
       "strikeout_inv staff hs t" "total_plate_apps t = 27" "outs t = 27"
       "random_calls t = c + 27" by auto
  have "sim_loop staff hs uo zero_draws (initial_state uo c) = Some (Inr t)"
    using sim_loop_of_upto [OF t(1)] t(4) by simp
  then have "sim_game staff hs uo zero_draws c =
      Some (Inr (sim_rc_per_hitter_per_inning t, sim_pa_per_hitter_per_inning t, c + 27))"
    using t(5) by (simp add: sim_game_def)
  with t(2,3) show ?thesis by (auto simp: strikeout_inv_def staff_0)
qed

lemma sum_mod_9:
  fixes f :: "nat \<Rightarrow> real"
  shows "(\<Sum>n<9 * k. f (n mod 9)) = real k * (\<Sum>i<9. f i)"
proof (induction k)
  case 0
  show ?case by simp
next
  case (Suc k)
  have "(\<Sum>n<9 * Suc k. f (n mod 9)) = (\<Sum>n=0..<9 * k + 9. f (n mod 9))"
    by (simp add: lessThan_atLeast0 add.commute)
  also have "\<dots> = (\<Sum>n=0..<9 * k. f (n mod 9)) + (\<Sum>n=9 * k..<9 * k + 9. f (n mod 9))"
    by (rule sum.atLeastLessThan_concat [symmetric]) auto
  also have "(\<Sum>n=9 * k..<9 * k + 9. f (n mod 9)) = (\<Sum>n=0..<9. f n)"
    using sum.shift_bounds_nat_ivl [of "\<lambda>n. f (n mod 9)" 0 "9 * k" 9]
    by (simp add: add.commute)
  finally show ?case
    using Suc.IH by (simp add: lessThan_atLeast0 algebra_simps)
qed

lemma sum_27_mod_9:
  fixes f :: "nat \<Rightarrow> real"
  shows "(\<Sum>n<27. f (n mod 9)) = 3 * (\<Sum>i<9. f i)"
  using sum_mod_9 [of f 3] by simp

subsection \<open>The base of the power\<close>

lemma spec_log_linear_exp:
  "spec_log_linear (exp 1) a b c x y = exp (a * ln x + b * ln y + c)"
  by (simp add: spec_log_linear_def powr_def)

lemma powr_literal_base_neq: "z \<noteq> 0 \<Longrightarrow> (2.71828::real) powr z \<noteq> exp 1 powr z"
proof
  assume z: "z \<noteq> 0" and eq: "(2.71828::real) powr z = exp 1 powr z"
  then have "exp (z * ln 2.71828) = exp z" by (simp add: powr_def)
  then have "z * ln (2.71828::real) = z" by simp
  with z have "ln (2.71828::real) = 1" by simp
  then have "exp (ln (2.71828::real)) = exp 1" by simp
  then have "(2.71828::real) = exp 1" by simp
  with exp_1_gt show False by simp
qed

lemma league_average_k_exponent:
  "0.9427 * ln (k_pct (league_average n)) + 0.9254 * ln (k_pct (league_average m)) + 1.5268 \<noteq> 0"
proof -
  have k: "k_pct (league_average n) = 0.2" for n by (simp add: league_average_def)
  define L where "L = ln (0.2::real)"
  have "L < - 1" unfolding L_def by (rule ln_fifth)
  then have "1.8681 * L < 1.8681 * (- 1)" by (intro mult_strict_left_mono) simp_all
  then have "0.9427 * L + 0.9254 * L + 1.5268 < 0" by simp
  then show ?thesis unfolding k L_def by simp
qed

lemma probabilities_as_spec:
  "probabilities hitter pitcher = spec_probabilities 2.71828 hitter pitcher"
  by (simp add: probabilities_def spec_probabilities_def spec_log_linear_def Let_def
        k_pct'_def bb_pct'_def single_pct'_def double_pct'_def triple_pct'_def hr_pct'_def
        hbp_pct'_def e_pct'_def oip_pct'_def)

lemma probabilities_not_exp:
  "probabilities (league_average 1) (league_average 2) \<noteq>
   spec_probabilities (exp 1) (league_average 1) (league_average 2)"
proof
  assume "probabilities (league_average 1) (league_average 2) =
   spec_probabilities (exp 1) (league_average 1) (league_average 2)"
  then have "snd (hd (probabilities (league_average 1) (league_average 2))) =
     snd (hd (spec_probabilities (exp 1) (league_average 1) (league_average 2)))" by simp
  then have "(2.71828::real) powr (0.9427 * ln (k_pct (league_average 1)) +
                 0.9254 * ln (k_pct (league_average 2)) + 1.5268) =
             exp 1 powr (0.9427 * ln (k_pct (league_average 1)) +
                 0.9254 * ln (k_pct (league_average 2)) + 1.5268)"
    by (simp add: probabilities_def spec_probabilities_def Let_def k_pct'_def spec_log_linear_def)
  with powr_literal_base_neq [OF league_average_k_exponent [of 1 2]] show False by simp
qed

subsection \<open>Twenty-four outs in the first twenty-four plate appearances\<close>

lemma no_bullpen_after_24_outs:
  assumes ok: "rosters_ok ps hs"
    and t24: "loop_upto ps hs False rnd 24 (initial_state False c) = Inr t24"
    and o24: "outs t24 = 24"
    and u: "loop_upto ps hs False rnd n (initial_state False c) = Inr u"
  shows "current_pitcher u \<noteq> 3 \<and> (outs u = 27 \<longrightarrow> current_pitcher u = 1)"
proof -
  let ?init = "initial_state False c"
  have ne3: "current_pitcher u \<noteq> 3" using u
  proof (induction n arbitrary: u)
    case 0
    then show ?case by (auto simp: initial_state_def)
  next
    case (Suc n)
    obtain v where v: "loop_upto ps hs False rnd n ?init = Inr v"
      using loop_upto_counters [OF ok, of False rnd n c] by blast
    show ?case
    proof (cases "outs v < 27")
      case True
      from starter_rotation_step [OF ok t24 v True] Suc.prems o24 True show ?thesis
        by (auto split: if_splits)
    next
      case False
      with v Suc.prems have "u = v" by (subst (asm) loop_upto_back) simp
      with Suc.IH [OF v] show ?thesis by simp
    qed
  qed
  have "current_pitcher u = 1" if "outs u = 27"
  proof -
    from loop_upto_counters [OF ok, of False rnd n c] u have "counters_ok c u" by simp
    with that have "24 < total_plate_apps u" by (simp add: counters_ok_def)
    with starter_inv_reached [OF ok u] ne3 show ?thesis by (auto simp: starter_inv_def)
  qed
  with ne3 show ?thesis by simp
qed

lemma strikeout_game_starter_first:
  assumes reg: "length hs = 9 \<and>
      (\<forall>h\<in>set hs. \<exists>n. h = league_average n \<or> h = doubles_hitter n)"
  shows "\<exists>t24 u. loop_upto staff hs False zero_draws 24 (initial_state False c) = Inr t24 \<and>
           outs t24 = 24 \<and>
           loop_upto staff hs False zero_draws 27 (initial_state False c) = Inr u \<and>
           outs u = 27 \<and> total_plate_apps u = 27 \<and> current_pitcher u = 1 \<and>
           outs_at_pitching_change u = 24 \<and>
           sim_loop staff hs False zero_draws (initial_state False c) = Some (Inr u)"
proof -
  have ok: "rosters_ok staff hs" using reg by (intro regular_lineup) auto
  from regular_strikeout_game [OF reg, of 24 False c] obtain t24 where
    t24: "loop_upto staff hs False zero_draws 24 (initial_state False c) = Inr t24" "outs t24 = 24"
    by auto
  from regular_strikeout_game [OF reg, of 27 False c] obtain u where
    u: "loop_upto staff hs False zero_draws 27 (initial_state False c) = Inr u" "outs u = 27"
       "total_plate_apps u = 27"
    by auto
  have cp: "current_pitcher u = 1"
    using no_bullpen_after_24_outs [OF ok t24 u(1)] u(2) by simp
  have mk: "outs_at_pitching_change u = 24"
    using starter_marker [OF ok t24(1) u(1)] u(3) t24(2) by simp
  have "sim_loop staff hs False zero_draws (initial_state False c) = Some (Inr u)"
    using sim_loop_of_upto [OF u(1)] u(2) by simp
  with t24 u cp mk show ?thesis by blast
qed

subsection \<open>One game with two lineups\<close>

lemma staff_sorted: "sort_key order staff = staff"
  by (rule sort_key_id_if_sorted) (simp add: staff_def league_average_def)

lemma lineup_sorted:
  "sort_key order lineup = lineup" "sort_key order lineup_a = lineup_a"
  "sort_key order lineup_b = lineup_b"
  by (rule sort_key_id_if_sorted,
      simp add: lineup_def lineup_a_def lineup_b_def league_average_def doubles_hitter_def)+

lemma one_game_batch:
  assumes reg: "length hs = 9 \<and>
      (\<forall>h\<in>set hs. \<exists>n. h = league_average n \<or> h = doubles_hitter n)"
    and sorted: "sort_key order hs = hs"
  shows "\<exists>rc pa. averaged_grids staff hs uo 1 zero_draws 0 = Some (Inr (rc, pa, 27)) \<and>
           rc 0 1 = exp_runs_created (hs ! 0) (league_average 1) \<and>
           simulation staff hs uo 1 zero_draws 0 =
             Some (Inr (3 * (\<Sum>i<9. exp_runs_created (hs ! i) (league_average 1)), 27))"
proof -
  from regular_sim_game [OF reg, of uo 0] obtain rc pa where
    g: "sim_game staff hs uo zero_draws 0 = Some (Inr (rc, pa, 27))"
    and tot: "grand_total rc = (\<Sum>n<27. exp_runs_created (hs ! (n mod 9)) (league_average 1))"
    and cell: "rc 0 1 = exp_runs_created (hs ! 0) (league_average 1)"
    by auto
  have loop: "games_loop staff hs uo zero_draws (Suc 0) (zero_grid, zero_grid, 0) =
      Some (Inr (grid_add zero_grid rc, grid_add zero_grid pa, 27))"
    using g by simp
  have avg: "averaged_grids staff hs uo 1 zero_draws 0 =
      Some (Inr (grid_div (grid_add zero_grid rc) 1, grid_div (grid_add zero_grid pa) 1, 27))"
    using loop by (simp add: averaged_grids_def staff_sorted sorted)
  have c: "grid_div (grid_add zero_grid rc) 1 0 1 = exp_runs_created (hs ! 0) (league_average 1)"
    using cell by (simp add: grid_div_def grid_add_def zero_grid_def)
  have "grand_total (grid_div (grid_add zero_grid rc) 1) =
      3 * (\<Sum>i<9. exp_runs_created (hs ! i) (league_average 1))"
    using tot sum_27_mod_9 [of "\<lambda>i. exp_runs_created (hs ! i) (league_average 1)"]
    by (simp add: grand_total_div grand_total_add grand_total_zero)
  then have "simulation staff hs uo 1 zero_draws 0 =
             Some (Inr (3 * (\<Sum>i<9. exp_runs_created (hs ! i) (league_average 1)), 27))"
    using avg by (simp add: simulation_def)
  with avg c show ?thesis by blast
qed

lemma hitter_order_irrelevant:
  "exp_runs_created (league_average n) p = exp_runs_created (league_average 1) p"
  "exp_runs_created (doubles_hitter n) p = exp_runs_created (doubles_hitter 1) p"
proof -
  have a: "k_pct' (league_average n) p = k_pct' (league_average 1) p"
    "bb_pct' (league_average n) p = bb_pct' (league_average 1) p"
    "single_pct' (league_average n) p = single_pct' (league_average 1) p"
    "double_pct' (league_average n) p = double_pct' (league_average 1) p"
    "triple_pct' (league_average n) p = triple_pct' (league_average 1) p"
    "hr_pct' (league_average n) p = hr_pct' (league_average 1) p"
    "hbp_pct' (league_average n) p = hbp_pct' (league_average 1) p"
    by (simp_all add: k_pct'_def bb_pct'_def single_pct'_def
        double_pct'_def triple_pct'_def hr_pct'_def hbp_pct'_def league_average_def)
  have b: "k_pct' (doubles_hitter n) p = k_pct' (doubles_hitter 1) p"
    "bb_pct' (doubles_hitter n) p = bb_pct' (doubles_hitter 1) p"
    "single_pct' (doubles_hitter n) p = single_pct' (doubles_hitter 1) p"
    "double_pct' (doubles_hitter n) p = double_pct' (doubles_hitter 1) p"
    "triple_pct' (doubles_hitter n) p = triple_pct' (doubles_hitter 1) p"
    "hr_pct' (doubles_hitter n) p = hr_pct' (doubles_hitter 1) p"
    "hbp_pct' (doubles_hitter n) p = hbp_pct' (doubles_hitter 1) p"
    by (simp_all add: k_pct'_def bb_pct'_def single_pct'_def
        double_pct'_def triple_pct'_def hr_pct'_def hbp_pct'_def league_average_def
        doubles_hitter_def)
  show "exp_runs_created (league_average n) p = exp_runs_created (league_average 1) p"
    unfolding exp_runs_created_def oip_pct'_def e_pct'_def a ..
  show "exp_runs_created (doubles_hitter n) p = exp_runs_created (doubles_hitter 1) p"
    unfolding exp_runs_created_def oip_pct'_def e_pct'_def b ..
qed

lemma doubles_hitter_runs:
  "exp_runs_created (doubles_hitter n) p = exp_runs_created (league_average n) p + 0.009206"
proof -
  have a: "k_pct' (doubles_hitter n) p = k_pct' (league_average n) p"
    "bb_pct' (doubles_hitter n) p = bb_pct' (league_average n) p"
    "single_pct' (doubles_hitter n) p = single_pct' (league_average n) p"
    "double_pct' (doubles_hitter n) p = double_pct' (league_average n) p + 0.009206"
    "triple_pct' (doubles_hitter n) p = triple_pct' (league_average n) p"
    "hr_pct' (doubles_hitter n) p = hr_pct' (league_average n) p"
    "hbp_pct' (doubles_hitter n) p = hbp_pct' (league_average n) p"
    by (simp_all add: k_pct'_def bb_pct'_def single_pct'_def
        double_pct'_def triple_pct'_def hr_pct'_def hbp_pct'_def league_average_def
        doubles_hitter_def)
  show ?thesis
    unfolding exp_runs_created_def oip_pct'_def e_pct'_def a by (simp add: algebra_simps)
qed

lemma lineup_totals:
  "(\<Sum>i<9. exp_runs_created (lineup_a ! i) p) = (\<Sum>i<9. exp_runs_created (lineup_b ! i) p)"
proof -
  note o = hitter_order_irrelevant(1) [of 2 p] hitter_order_irrelevant(1) [of 3 p]
    hitter_order_irrelevant(1) [of 4 p] hitter_order_irrelevant(1) [of 5 p]
    hitter_order_irrelevant(1) [of 6 p] hitter_order_irrelevant(1) [of 7 p]
    hitter_order_irrelevant(1) [of 8 p] hitter_order_irrelevant(1) [of 9 p]
    hitter_order_irrelevant(2) [of 2 p]
  have s: "(\<Sum>i<9. f i) = f 0 + f 1 + f 2 + f 3 + f 4 + f 5 + f 6 + f 7 + f 8"
    for f :: "nat \<Rightarrow> real"
    by (simp add: eval_nat_numeral)
  have "(\<Sum>i<9. exp_runs_created (lineup_a ! i) p) =
      exp_runs_created (doubles_hitter 1) p + 8 * exp_runs_created (league_average 1) p"
    unfolding s by (simp add: lineup_a_def o)
  moreover have "(\<Sum>i<9. exp_runs_created (lineup_b ! i) p) =
      exp_runs_created (doubles_hitter 1) p + 8 * exp_runs_created (league_average 1) p"
    unfolding s by (simp add: lineup_b_def o)
  ultimately show ?thesis by simp
qed

lemma same_total_different_grids:
  "simulation staff lineup_a False 1 zero_draws 0 = simulation staff lineup_b False 1 zero_draws 0 \<and>
   averaged_grids staff lineup_a False 1 zero_draws 0 \<noteq>
   averaged_grids staff lineup_b False 1 zero_draws 0"
proof -
  from one_game_batch [OF lineup_a_regular lineup_sorted(2), of False] obtain rca paa where
    a: "averaged_grids staff lineup_a False 1 zero_draws 0 = Some (Inr (rca, paa, 27))"
       "rca 0 1 = exp_runs_created (lineup_a ! 0) (league_average 1)"
       "simulation staff lineup_a False 1 zero_draws 0 =
          Some (Inr (3 * (\<Sum>i<9. exp_runs_created (lineup_a ! i) (league_average 1)), 27))"
    by blast
  from one_game_batch [OF lineup_b_regular lineup_sorted(3), of False] obtain rcb pab where
    b: "averaged_grids staff lineup_b False 1 zero_draws 0 = Some (Inr (rcb, pab, 27))"
       "rcb 0 1 = exp_runs_created (lineup_b ! 0) (league_average 1)"
       "simulation staff lineup_b False 1 zero_draws 0 =
          Some (Inr (3 * (\<Sum>i<9. exp_runs_created (lineup_b ! i) (league_average 1)), 27))"
    by blast
  have "rca 0 1 \<noteq> rcb 0 1"
    unfolding a(2) b(2) by (simp add: lineup_a_def lineup_b_def doubles_hitter_runs)
  then have "rca \<noteq> rcb" by auto
  with a(1) b(1) a(3) b(3) lineup_totals [of "league_average 1"] show ?thesis by simp
qed

subsection \<open>Counting plate appearances and outs\<close>

lemma loop_body_counts:
  assumes "loop_body ps hs uo rnd s = Inr s'"
  shows "total_plate_apps s' = total_plate_apps s + 1 \<and>
         (outs s' = outs s \<or> outs s' = outs s + 1)"
  using assms
  by (auto simp: loop_body_def Let_def split: sum.splits prod.splits if_splits)

lemma outs_le_plate_apps:
  assumes ok: "rosters_ok ps hs"
    and t: "loop_upto ps hs uo rnd n (initial_state uo c) = Inr t"
  shows "outs t \<le> n"
proof -
  from loop_upto_counters [OF ok, of uo rnd n c] t have "outs t \<le> total_plate_apps t"
    by (simp add: counters_ok_def)
  moreover from loop_upto_plate_apps [OF t ok initial_role] have "total_plate_apps t \<le> n"
    by (simp add: initial_state_def)
  ultimately show ?thesis by simp
qed

subsection \<open>The draw with clamped weights\<close>

lemma sum_list_take_first:
  fixes w :: real
  assumes "0 < w" "\<forall>v\<in>set rest. 0 \<le> v"
  shows "0 < sum_list (take (Suc j) (w # rest))"
proof -
  have "\<And>v. v \<in> set (take j rest) \<Longrightarrow> 0 \<le> v"
    using assms(2) by (auto dest: in_set_takeD)
  then have "0 \<le> sum_list (take j rest)" by (rule sum_list_nonneg)
  with assms(1) show ?thesis by simp
qed

lemma choices_first_at_zero:
  assumes w: "0 < w" and rest: "\<forall>v\<in>set rest. 0 \<le> v"
    and len: "length population = Suc (length rest)"
  shows "choices population (w # rest) 0 = Inr (population ! 0)"
proof -
  let ?ws = "w # rest"
  let ?cum = "accumulate ?ws"
  have tot: "0 < last ?cum"
    using last_accumulate [of ?ws] sum_list_take_first [OF w rest, of "length rest"] by simp
  have lcum: "length ?cum = length population" by (simp add: length_accumulate len)
  then have ne: "?cum \<noteq> []" using len by auto
  define i where "i = bisect_right ?cum 0 0 (length population - 1)"
  have res: "choices population ?ws 0 = Inr (population ! i)"
    using tot lcum ne by (simp add: choices_def Let_def i_def)
  have range: "i \<le> length population - 1"
    using bisect_right_range [of 0 "length population - 1" ?cum 0] by (simp add: i_def)
  have br: "i = 0 \<or> ?cum ! (i - 1) \<le> 0"
    using bisect_right_bracket [of 0 "length population - 1" ?cum 0] by (simp add: i_def)
  have "i = 0"
  proof (rule ccontr)
    assume "i \<noteq> 0"
    with br have le: "?cum ! (i - 1) \<le> 0" by simp
    have "i - 1 < length ?ws" using range len by simp
    then have "?cum ! (i - 1) = sum_list (take (Suc (i - 1)) ?ws)" by (rule nth_accumulate)
    with sum_list_take_first [OF w rest, of "i - 1"] le show False by simp
  qed
  with res show ?thesis by simp
qed

lemma home_run_clamped_draw:
  "choices (map fst (probabilities (home_run_profile 1) (home_run_profile 2)))
     (clamp_weights (map snd (probabilities (home_run_profile 1) (home_run_profile 2)))) 0 =
   Inr K"
proof -
  let ?h = "home_run_profile 1" and ?p = "home_run_profile 2"
  have k: "0 < k_pct' ?h ?p" by (simp add: k_pct'_def)
  obtain rest where c: "clamp_weights (map snd (probabilities ?h ?p)) = k_pct' ?h ?p # rest"
    "length rest = 8" "\<forall>v\<in>set rest. 0 \<le> v"
    using k by (auto simp: clamp_weights_def probabilities_def)
  have "choices (map fst (probabilities ?h ?p)) (k_pct' ?h ?p # rest) 0 =
      Inr (map fst (probabilities ?h ?p) ! 0)"
    using k c(3) by (rule choices_first_at_zero) (simp add: probabilities_def c(2))
  then show ?thesis unfolding c(1) by (simp add: probabilities_def)
qed

section \<open>The claims\<close>

text \<open>
  C1. The nine probabilities that \<open>sim_plate_app\<close> derives, in the order of the dictionary
  (\<open>k\<close>, \<open>bb\<close>, \<open>1b\<close>, \<open>2b\<close>, \<open>3b\<close>, \<open>hr\<close>, \<open>hbp\<close>, \<open>e\<close>, \<open>oip\<close>), sum to exactly 1 for every
  hitter and pitcher profile, because \<open>oip\<close> is 1 minus the sum of the other eight. The
  identity is algebraic and needs no assumption on the rates, so it holds in particular when
  all of them are strictly positive.
\<close>

theorem probabilities_sum_to_one:
  "map fst (probabilities hitter pitcher) = [K, BB, B1, B2, B3, HR, HBP, E, OIP] \<and>
   sum_list (map snd (probabilities hitter pitcher)) = 1 \<and>
   oip_pct' hitter pitcher =
     1 - (k_pct' hitter pitcher + bb_pct' hitter pitcher + single_pct' hitter pitcher +
          double_pct' hitter pitcher + triple_pct' hitter pitcher + hr_pct' hitter pitcher +
          hbp_pct' hitter pitcher + e_pct' hitter pitcher)"
  by (simp add: probabilities_total probabilities_keys oip_pct'_def)

text \<open>
  C2, as amended. Not every run of \<open>sim_game\<close> terminates. On rosters that do not raise, a run
  that leaves the loop does so in a state with exactly 27 outs and at least 27 plate
  appearances, and a run leaves the loop if and only if some finite number of plate
  appearances brings the out count to 27. Each iteration of the loop adds one plate
  appearance and at most one out.
\<close>

theorem terminating_run_has_27_outs:
  "rosters_ok ps hs \<Longrightarrow>
     (\<forall>r. sim_loop ps hs uo rnd (initial_state uo c) = Some r \<longrightarrow>
        (\<exists>s. r = Inr s \<and> outs s = 27 \<and> 27 \<le> total_plate_apps s)) \<and>
     ((\<exists>r. sim_loop ps hs uo rnd (initial_state uo c) = Some r) \<longleftrightarrow>
      (\<exists>n s. loop_upto ps hs uo rnd n (initial_state uo c) = Inr s \<and> outs s = 27)) \<and>
     (\<forall>s s'. loop_body ps hs uo rnd s = Inr s' \<longrightarrow>
        total_plate_apps s' = total_plate_apps s + 1 \<and>
        (outs s' = outs s \<or> outs s' = outs s + 1))"
  using terminal_state_of_run [of ps hs uo rnd c] loop_body_counts [of ps hs uo rnd]
  by blast

text \<open>The game of 27 strikeouts (every draw is \<open>0.0\<close>) is such a run.\<close>

theorem terminating_run_witness:
  "rosters_ok staff lineup \<and>
   (\<exists>s. sim_loop staff lineup False zero_draws (initial_state False 0) = Some (Inr s) \<and>
        outs s = 27 \<and> 27 \<le> total_plate_apps s)"
proof -
  have ok: "rosters_ok staff lineup"
    using lineup_regular by (intro regular_lineup) auto
  from regular_strikeout_game [OF lineup_regular, of 27 False 0] obtain t where
    t: "loop_upto staff lineup False zero_draws 27 (initial_state False 0) = Inr t" "outs t = 27"
    by auto
  from terminating_run_has_27_outs [OF ok, of False zero_draws 0] t
  obtain r where r: "sim_loop staff lineup False zero_draws (initial_state False 0) = Some r"
    by blast
  with terminating_run_has_27_outs [OF ok, of False zero_draws 0]
  obtain s where "r = Inr s" "outs s = 27" "27 \<le> total_plate_apps s" by blast
  with r ok show ?thesis by blast
qed

text \<open>
  C2, as stated, fails: with the home-run profile in every batting slot and every pitching
  role, every value in \<open>[0, 1)\<close> that the random source can return resolves to \<open>hr\<close>, no out
  is ever recorded and the loop never ends.
\<close>

theorem sim_game_never_returns:
  "sim_game home_run_staff home_run_lineup False zero_draws 0 = None"
  by (rule home_run_game_diverges) (simp add: zero_draws_def)

text \<open>
  C3, as amended. In the starter-first branch, on rosters that do not raise, let \<open>t24\<close> be the
  state after 24 plate appearances and \<open>t\<close> the state before plate appearance \<open>m + 1\<close>. The
  pitcher of plate appearance \<open>m + 1\<close> is role 2 up to the 24th, and from the 25th on role 1
  while the out count is below the marker plus 3 and role 3 once it has reached it; the
  marker is the out count before the 25th plate appearance. So the switch from role 2 to
  role 1 happens once, at the 25th plate appearance, and the switch to role 3 happens at the
  first plate appearance that starts with marker + 3 outs, if the game has one. At most 24
  outs are recorded before the 25th plate appearance, so that one always takes place.
\<close>

theorem starter_first_pitcher_by_plate_appearance:
  assumes "rosters_ok ps hs"
    and "loop_upto ps hs False rnd 24 (initial_state False c) = Inr t24"
    and "loop_upto ps hs False rnd m (initial_state False c) = Inr t" and "outs t < 27"
  shows "\<exists>t'. loop_upto ps hs False rnd (Suc m) (initial_state False c) = Inr t' \<and>
           total_plate_apps t' = Suc m \<and>
           current_pitcher t' =
             (if Suc m \<le> 24 then 2 else if outs t < outs t24 + 3 then 1 else 3) \<and>
           (24 < Suc m \<longrightarrow> outs_at_pitching_change t' = outs t24) \<and>
           outs t24 \<le> 24"
  using starter_rotation_step [OF assms] outs_le_plate_apps [OF assms(1,2)] by blast

theorem starter_first_pitcher_witness:
  "rosters_ok staff lineup \<and>
   (\<exists>t24 t t'. loop_upto staff lineup False zero_draws 24 (initial_state False 0) = Inr t24 \<and>
      loop_upto staff lineup False zero_draws 26 (initial_state False 0) = Inr t \<and>
      outs t < 27 \<and>
      loop_upto staff lineup False zero_draws 27 (initial_state False 0) = Inr t' \<and>
      total_plate_apps t' = 27 \<and> current_pitcher t' = 1 \<and> outs_at_pitching_change t' = 24)"
proof -
  have ok: "rosters_ok staff lineup"
    using lineup_regular by (intro regular_lineup) auto
  from regular_strikeout_game [OF lineup_regular, of 24 False 0] obtain t24 where
    t24: "loop_upto staff lineup False zero_draws 24 (initial_state False 0) = Inr t24"
      "outs t24 = 24" by auto
  from regular_strikeout_game [OF lineup_regular, of 26 False 0] obtain t where
    t: "loop_upto staff lineup False zero_draws 26 (initial_state False 0) = Inr t"
      "outs t = 26" by auto
  have o: "outs t < 27" using t(2) by simp
  from starter_first_pitcher_by_plate_appearance [OF ok t24(1) t(1) o] obtain t' where
    "loop_upto staff lineup False zero_draws 27 (initial_state False 0) = Inr t'"
    "total_plate_apps t' = 27" "current_pitcher t' = 1" "outs_at_pitching_change t' = 24"
    using t24(2) t(2) by auto
  with ok t24(1) t(1) o show ?thesis by blast
qed

text \<open>
  C3, as stated, fails: in the starter-first game of 27 strikeouts the marker is 24, the
  game is over at 27 outs after 27 plate appearances, and it ends with role 1 active: the
  switch to role 3 that the claim places 3 outs after the marker never happens.
\<close>

theorem starter_first_bullpen_unused:
  "map_option
     (map_sum id (\<lambda>s. (current_pitcher s, outs s, total_plate_apps s, outs_at_pitching_change s)))
     (sim_loop staff lineup False zero_draws (initial_state False 0)) =
   Some (Inr (1, 27, 27, 24))"
proof -
  from strikeout_game_starter_first [OF lineup_regular, of 0] obtain u where
    "sim_loop staff lineup False zero_draws (initial_state False 0) = Some (Inr u)"
    "current_pitcher u = 1" "outs u = 27" "total_plate_apps u = 27"
    "outs_at_pitching_change u = 24" by blast
  then show ?thesis by simp
qed

text \<open>
  C4. In the opener-first branch, on rosters that do not raise, let \<open>t\<close> be the state before
  plate appearance \<open>m + 1\<close>. The pitcher of that plate appearance is role 1 exactly when fewer
  than 3 outs have been recorded, otherwise role 2 up to the 27th plate appearance and role 3
  after it. Role 1 is never re-entered: if an earlier plate appearance was not pitched by
  role 1, neither is this one.
\<close>

theorem opener_first_pitcher_by_plate_appearance:
  assumes "rosters_ok ps hs"
    and "loop_upto ps hs True rnd m (initial_state True c) = Inr t" and "outs t < 27"
  shows "\<exists>t'. loop_upto ps hs True rnd (Suc m) (initial_state True c) = Inr t' \<and>
           total_plate_apps t' = Suc m \<and>
           current_pitcher t' = (if outs t < 3 then 1 else if Suc m \<le> 27 then 2 else 3) \<and>
           (\<forall>k u u'. k \<le> m \<and> loop_upto ps hs True rnd k (initial_state True c) = Inr u \<and>
                loop_upto ps hs True rnd (Suc k) (initial_state True c) = Inr u' \<and>
                current_pitcher u' \<noteq> 1 \<longrightarrow> current_pitcher t' \<noteq> 1)"
  using assms by (rule opener_rotation_step)

text \<open>In the opener-first game of strikeouts the fourth plate appearance starts with 3 outs
  and is pitched by role 2.\<close>

theorem opener_first_pitcher_witness:
  "rosters_ok staff lineup \<and>
   (\<exists>t t'. loop_upto staff lineup True zero_draws 3 (initial_state True 0) = Inr t \<and>
      outs t < 27 \<and>
      loop_upto staff lineup True zero_draws 4 (initial_state True 0) = Inr t' \<and>
      total_plate_apps t' = 4 \<and> current_pitcher t' = 2)"
proof -
  have ok: "rosters_ok staff lineup"
    using lineup_regular by (intro regular_lineup) auto
  from regular_strikeout_game [OF lineup_regular, of 3 True 0] obtain t where
    t: "loop_upto staff lineup True zero_draws 3 (initial_state True 0) = Inr t" "outs t = 3"
    by auto
  have o: "outs t < 27" using t(2) by simp
  from opener_first_pitcher_by_plate_appearance [OF ok t(1) o] obtain t' where
    "loop_upto staff lineup True zero_draws 4 (initial_state True 0) = Inr t'"
    "total_plate_apps t' = 4" "current_pitcher t' = 2"
    using t(2) by (auto simp: eval_nat_numeral)
  with ok t(1) o show ?thesis by blast
qed

text \<open>
  C5. For a trial count of at least 1, \<open>simulation\<close> returns what the specification describes:
  the games are played one after the other on the shared random source, and the result is
  \<open>1/N\<close> times the sum of the grand totals of the per-game runs grids (with a game that does
  not return or that raises handled alike on both sides).
\<close>

theorem simulation_mean_of_game_totals:
  "1 \<le> sample_size \<Longrightarrow>
     simulation ps hs uo sample_size rnd c = spec_simulation ps hs uo sample_size rnd c"
  by (rule simulation_refines)

theorem simulation_mean_witness:
  "(1::int) \<le> 1 \<and>
   spec_simulation staff lineup False 1 zero_draws 0 =
     Some (Inr (3 * (\<Sum>i<9. exp_runs_created (lineup ! i) (league_average 1)), 27))"
proof -
  have one: "(1::int) \<le> 1" by simp
  from one_game_batch [OF lineup_regular lineup_sorted(1), of False]
  have "simulation staff lineup False 1 zero_draws 0 =
     Some (Inr (3 * (\<Sum>i<9. exp_runs_created (lineup ! i) (league_average 1)), 27))"
    by blast
  with simulation_mean_of_game_totals [OF one, of staff lineup False zero_draws 0]
  show ?thesis by simp
qed

text \<open>
  C6. When no logarithm raises, the second component of the result of \<open>sim_plate_app\<close> is the
  dot product of the nine derived probabilities with the fixed linear weights, whatever value
  the random source returns.
\<close>

theorem expected_runs_is_dot_product:
  "log_args_positive hitter \<Longrightarrow> log_args_positive pitcher \<Longrightarrow>
     \<exists>simulated_outcome.
       sim_plate_app hitter pitcher r =
         Inr (simulated_outcome,
              - 0.26 * k_pct' hitter pitcher + 0.29 * bb_pct' hitter pitcher +
              0.44 * single_pct' hitter pitcher + 0.74 * double_pct' hitter pitcher +
              1.01 * triple_pct' hitter pitcher + 1.39 * hr_pct' hitter pitcher +
              0.31 * hbp_pct' hitter pitcher + - 0.26 * e_pct' hitter pitcher +
              - 0.26 * oip_pct' hitter pitcher) \<and>
       exp_runs_created hitter pitcher =
         (\<Sum>(c, p) \<leftarrow> probabilities hitter pitcher. LINEAR_WEIGHTS c * p)"
proof -
  assume "log_args_positive hitter" "log_args_positive pitcher"
  then obtain oc where
    oc: "sim_plate_app hitter pitcher r = Inr (oc, exp_runs_created hitter pitcher)"
    using sim_plate_app_Inr by blast
  have explicit: "exp_runs_created hitter pitcher =
              - 0.26 * k_pct' hitter pitcher + 0.29 * bb_pct' hitter pitcher +
              0.44 * single_pct' hitter pitcher + 0.74 * double_pct' hitter pitcher +
              1.01 * triple_pct' hitter pitcher + 1.39 * hr_pct' hitter pitcher +
              0.31 * hbp_pct' hitter pitcher + - 0.26 * e_pct' hitter pitcher +
              - 0.26 * oip_pct' hitter pitcher"
    by (simp add: exp_runs_created_def)
  have dot: "exp_runs_created hitter pitcher =
         (\<Sum>(c, p) \<leftarrow> probabilities hitter pitcher. LINEAR_WEIGHTS c * p)"
    by (rule exp_runs_created_dot)
  from oc explicit dot show ?thesis by metis
qed

theorem expected_runs_witness:
  "log_args_positive (league_average 1) \<and> log_args_positive (league_average 2) \<and>
   (\<exists>simulated_outcome.
      sim_plate_app (league_average 1) (league_average 2) (1 / 2) =
        Inr (simulated_outcome, exp_runs_created (league_average 1) (league_average 2)))"
proof -
  have p: "log_args_positive (league_average 1)" "log_args_positive (league_average 2)"
    by (rule regular_positive)+
  from expected_runs_is_dot_product [OF p, of "1 / 2"] obtain oc where
    "sim_plate_app (league_average 1) (league_average 2) (1 / 2) =
       Inr (oc, exp_runs_created (league_average 1) (league_average 2))"
    by (auto simp: exp_runs_created_def)
  with p show ?thesis by blast
qed

text \<open>
  C7, as amended. \<open>sim_plate_app\<close> derives the probabilities as the specification describes
  them, with one difference: the base of the power in the six log-linear categories is the
  decimal literal \<open>2.71828\<close>, not Euler's number. The double is the linear blend, the error
  is \<open>(1 - (k + bb + hbp)) * 0.016\<close>, and the out in play is the residual.
\<close>

theorem probabilities_with_literal_base:
  "probabilities hitter pitcher = spec_probabilities 2.71828 hitter pitcher"
  by (rule probabilities_as_spec)

text \<open>
  C7, as stated, fails: with Euler's number as the base, that is with \<open>exp\<close>, the strikeout
  probability of the league-average hitter against the league-average pitcher is not the
  one that \<open>sim_plate_app\<close> derives.
\<close>

theorem probabilities_base_is_not_e:
  "probabilities (league_average 1) (league_average 2) \<noteq>
   spec_probabilities (exp 1) (league_average 1) (league_average 2)"
  by (rule probabilities_not_exp)

text \<open>
  C8, as amended. When no logarithm raises and the random source returns a value in
  \<open>[0, 1)\<close>, the weighted draw of \<open>sim_plate_app\<close> does not raise and never returns a
  category whose weight is zero or negative. The weights are not clamped, though: the draw
  bisects the running sums of the weights as they are, so a negative weight lowers every
  running sum after it and takes probability away from other categories. The category
  returned is the one that the comparisons of the drawn value with these running sums
  select, in the order of the bisection.
\<close>

theorem draw_ignores_nonpositive_weights:
  "log_args_positive hitter \<Longrightarrow> log_args_positive pitcher \<Longrightarrow> 0 \<le> r \<Longrightarrow> r < 1 \<Longrightarrow>
     (\<exists>i<9. sim_plate_app hitter pitcher r =
              Inr (fst (probabilities hitter pitcher ! i), exp_runs_created hitter pitcher) \<and>
            0 < snd (probabilities hitter pitcher ! i)) \<and>
     sim_plate_app hitter pitcher r =
       Inr (let c0 = k_pct' hitter pitcher;
                c1 = c0 + bb_pct' hitter pitcher;
                c2 = c1 + single_pct' hitter pitcher;
                c3 = c2 + double_pct' hitter pitcher;
                c4 = c3 + triple_pct' hitter pitcher;
                c5 = c4 + hr_pct' hitter pitcher;
                c6 = c5 + hbp_pct' hitter pitcher;
                c7 = c6 + e_pct' hitter pitcher
            in if r < c4 then
                 (if r < c2 then (if r < c1 then (if r < c0 then K else BB) else B1)
                  else (if r < c3 then B2 else B3))
               else
                 (if r < c6 then (if r < c5 then HR else HBP)
                  else (if r < c7 then E else OIP)),
            exp_runs_created hitter pitcher)"
  using sim_plate_app_returns [of hitter pitcher r] sim_plate_app_tree [of hitter pitcher r]
  by blast

text \<open>The home-run profile gives a vector with negative entries (the double and the out in
  play); a draw of one half returns the home run.\<close>

theorem draw_ignores_nonpositive_weights_witness:
  "log_args_positive (home_run_profile 1) \<and> log_args_positive (home_run_profile 2) \<and>
   (0::real) \<le> 1 / 2 \<and> (1 / 2 :: real) < 1 \<and>
   double_pct' (home_run_profile 1) (home_run_profile 2) < 0 \<and>
   (\<exists>i<9. sim_plate_app (home_run_profile 1) (home_run_profile 2) (1 / 2) =
            Inr (fst (probabilities (home_run_profile 1) (home_run_profile 2) ! i),
                 exp_runs_created (home_run_profile 1) (home_run_profile 2)) \<and>
          0 < snd (probabilities (home_run_profile 1) (home_run_profile 2) ! i)) \<and>
   sim_plate_app (home_run_profile 1) (home_run_profile 2) (1 / 2) =
     Inr (HR, exp_runs_created (home_run_profile 1) (home_run_profile 2))"
proof -
  have p: "log_args_positive (home_run_profile 1)" "log_args_positive (home_run_profile 2)"
    by (rule home_run_profile_positive)+
  have r: "(0::real) \<le> 1 / 2" "(1 / 2 :: real) < 1" by simp_all
  have d: "double_pct' (home_run_profile 1) (home_run_profile 2) < 0"
    by (simp add: double_pct'_def home_run_profile_def)
  have hr: "sim_plate_app (home_run_profile 1) (home_run_profile 2) (1 / 2) =
     Inr (HR, exp_runs_created (home_run_profile 1) (home_run_profile 2))"
    using r by (rule home_run_draw)
  from draw_ignores_nonpositive_weights [OF p r] p r d hr show ?thesis by blast
qed

text \<open>
  C8, as stated, fails: for the home-run profile the strikeout has a positive weight and a
  draw of \<open>0.0\<close> would return it were the negative weights treated as zero, but
  \<open>sim_plate_app\<close> returns the home run.
\<close>

theorem draw_does_not_clamp:
  "sim_plate_app (home_run_profile 1) (home_run_profile 2) 0 =
     Inr (HR, exp_runs_created (home_run_profile 1) (home_run_profile 2)) \<and>
   choices (map fst (probabilities (home_run_profile 1) (home_run_profile 2)))
     (clamp_weights (map snd (probabilities (home_run_profile 1) (home_run_profile 2)))) 0 =
     Inr K"
  using home_run_draw [of 0 1 2] home_run_clamped_draw by simp

text \<open>
  C9, as amended. \<open>simulation\<close> hands its caller one number, the grand total of the averaged
  runs grid (here with the position of the random source after the call). The two averaged
  grids are local variables of the call: they are neither returned nor stored.
\<close>

theorem simulation_returns_total_only:
  "simulation ps hs uo sample_size rnd c =
     map_option
       (map_sum id (\<lambda>(sim_rc_df, sim_pa_df, c').
          (if sample_size = 0 then 0 else grand_total sim_rc_df, c')))
       (averaged_grids ps hs uo sample_size rnd c)"
  by (simp add: simulation_def split: option.splits sum.splits)

text \<open>
  C9, as stated, fails: two lineups that differ by a swap of the first two hitters give the
  caller the same result of \<open>simulation\<close> although their averaged grids differ, so the grids
  cannot be had from the call.
\<close>

theorem averaged_grids_not_returned:
  "simulation staff lineup_a False 1 zero_draws 0 = simulation staff lineup_b False 1 zero_draws 0 \<and>
   averaged_grids staff lineup_a False 1 zero_draws 0 \<noteq>
   averaged_grids staff lineup_b False 1 zero_draws 0"
  by (rule same_total_different_grids)

text \<open>
  C10. In the starter-first branch there are runs in which the bullpen never pitches. When
  each of the first 24 plate appearances is an out, no state of the run has role 3 as the
  current pitcher, and a state with 27 outs is the final state of the game and has role 1
  active.
\<close>

theorem bullpen_unused_after_24_straight_outs:
  assumes "rosters_ok ps hs"
    and "loop_upto ps hs False rnd 24 (initial_state False c) = Inr t24" and "outs t24 = 24"
    and "loop_upto ps hs False rnd n (initial_state False c) = Inr u"
  shows "current_pitcher u \<noteq> 3 \<and>
         (outs u = 27 \<longrightarrow>
            current_pitcher u = 1 \<and>
            sim_loop ps hs False rnd (initial_state False c) = Some (Inr u))"
  using no_bullpen_after_24_outs [OF assms] sim_loop_of_upto [OF assms(4)] by simp

text \<open>The game of 27 strikeouts is such a run.\<close>

theorem bullpen_unused_witness:
  "rosters_ok staff lineup \<and>
   (\<exists>t24 u. loop_upto staff lineup False zero_draws 24 (initial_state False 0) = Inr t24 \<and>
      outs t24 = 24 \<and>
      loop_upto staff lineup False zero_draws 27 (initial_state False 0) = Inr u \<and>
      outs u = 27 \<and> current_pitcher u \<noteq> 3 \<and> current_pitcher u = 1 \<and>
      sim_loop staff lineup False zero_draws (initial_state False 0) = Some (Inr u))"
proof -
  have ok: "rosters_ok staff lineup"
    using lineup_regular by (intro regular_lineup) auto
  from regular_strikeout_game [OF lineup_regular, of 24 False 0] obtain t24 where
    t24: "loop_upto staff lineup False zero_draws 24 (initial_state False 0) = Inr t24"
      "outs t24 = 24" by auto
  from regular_strikeout_game [OF lineup_regular, of 27 False 0] obtain u where
    u: "loop_upto staff lineup False zero_draws 27 (initial_state False 0) = Inr u"
      "outs u = 27" by auto
  from bullpen_unused_after_24_straight_outs [OF ok t24 u(1)] u(2)
  have "current_pitcher u \<noteq> 3" "current_pitcher u = 1"
    "sim_loop staff lineup False zero_draws (initial_state False 0) = Some (Inr u)"
    by simp_all
  with ok t24 u show ?thesis by blast
qed

end
